theory Spec2Isabelle
  imports Complex_Main "HOL-Library.AList"
begin

section \<open>The random source\<close>

text \<open>
  The program draws all of its randomness from Python's module-level generator
  (\<^verbatim>\<open>random.random\<close>, \<^verbatim>\<open>random.uniform\<close>, \<^verbatim>\<open>random.randint\<close>,
  \<^verbatim>\<open>random.sample\<close>, \<^verbatim>\<open>random.choice\<close>, \<^verbatim>\<open>random.shuffle\<close>).  The generator is
  modelled as a tape of raw draws and a read position; seeding fixes the tape.  Every
  library function is written from its CPython definition in terms of two primitives:
  \<^item> \<open>random\<close>: a 53-bit integer divided by \<open>2^53\<close>, hence a value in \<open>[0, 1)\<close>;
  \<^item> \<open>randbelow n\<close>: an integer in \<open>[0, n)\<close>.  CPython obtains it by rejection sampling
    on raw bits; the model reads one cell of the tape and reduces it modulo \<open>n\<close>, so
    every value below \<open>n\<close> can come out and exactly one cell is used.

  Python floats are modelled as reals: the claims verified below are about the
  arithmetic the program writes down, not about rounding.
\<close>

record rng =
  tape :: "nat \<Rightarrow> nat"
  pos :: nat

datatype error = KeyError string | StopIteration | ValueError | IndexError

definition next_raw :: "rng \<Rightarrow> nat \<times> rng" where
  "next_raw g = (tape g (pos g), g\<lparr>pos := Suc (pos g)\<rparr>)"

definition random :: "rng \<Rightarrow> real \<times> rng" where
  "random g = (case next_raw g of (k, g') \<Rightarrow> (real (k mod 2 ^ 53) / 2 ^ 53, g'))"

definition randbelow :: "nat \<Rightarrow> rng \<Rightarrow> nat \<times> rng" where
  "randbelow n g = (case next_raw g of (k, g') \<Rightarrow> (k mod n, g'))"

text \<open>\<^verbatim>\<open>uniform(a, b)\<close> is \<^verbatim>\<open>a + (b - a) * self.random()\<close>.\<close>

definition uniform :: "real \<Rightarrow> real \<Rightarrow> rng \<Rightarrow> real \<times> rng" where
  "uniform a b g = (case random g of (r, g') \<Rightarrow> (a + (b - a) * r, g'))"

text \<open>\<^verbatim>\<open>randint(a, b)\<close> is \<^verbatim>\<open>randrange(a, b + 1)\<close>, which raises ValueError on an
  empty range and otherwise returns \<^verbatim>\<open>a + randbelow(b + 1 - a)\<close>.\<close>

definition randint :: "int \<Rightarrow> int \<Rightarrow> rng \<Rightarrow> error + (int \<times> rng)" where
  "randint a b g =
     (if b < a then Inl ValueError
      else case randbelow (nat (b + 1 - a)) g of (j, g') \<Rightarrow> Inr (a + int j, g'))"

text \<open>\<^verbatim>\<open>choice(seq)\<close> raises IndexError on an empty sequence and otherwise returns
  \<^verbatim>\<open>seq[randbelow(len(seq))]\<close>.\<close>

definition choice :: "'a list \<Rightarrow> rng \<Rightarrow> error + ('a \<times> rng)" where
  "choice seq g =
     (if seq = [] then Inl IndexError
      else case randbelow (length seq) g of (j, g') \<Rightarrow> Inr (seq ! j, g'))"

text \<open>\<^verbatim>\<open>shuffle(x)\<close>: for \<open>i\<close> from \<open>len(x) - 1\<close> down to \<open>1\<close>, draw
  \<^verbatim>\<open>j = randbelow(i + 1)\<close> and swap \<^verbatim>\<open>x[i], x[j] = x[j], x[i]\<close>.\<close>

fun shuffle_loop :: "nat \<Rightarrow> 'a list \<Rightarrow> rng \<Rightarrow> 'a list \<times> rng" where
  "shuffle_loop 0 x g = (x, g)"
| "shuffle_loop (Suc i) x g =
     (case randbelow (Suc (Suc i)) g of
        (j, g') \<Rightarrow> shuffle_loop i (x[Suc i := x ! j, j := x ! Suc i]) g')"

definition shuffle :: "'a list \<Rightarrow> rng \<Rightarrow> 'a list \<times> rng" where
  "shuffle x g = shuffle_loop (length x - 1) x g"

text \<open>\<^verbatim>\<open>sample(population, k)\<close> raises ValueError unless \<open>0 \<le> k \<le> n\<close>.  For a
  population of at most 21 elements (here the 8 interests) it copies the population into
  a pool and, for \<open>i\<close> from \<open>0\<close> to \<open>k - 1\<close>, draws \<^verbatim>\<open>j = randbelow(n - i)\<close>, takes
  \<^verbatim>\<open>pool[j]\<close> and moves \<^verbatim>\<open>pool[n - i - 1]\<close> into the vacancy.  The second argument of
  \<open>sample_loop\<close> is \<open>n - i\<close>, the number of pool cells still unselected; the guard
  \<open>k \<le> n\<close> keeps it positive at every draw.\<close>

fun sample_loop :: "nat \<Rightarrow> nat \<Rightarrow> 'a list \<Rightarrow> rng \<Rightarrow> 'a list \<times> rng" where
  "sample_loop 0 m pool g = ([], g)"
| "sample_loop (Suc k) m pool g =
     (case randbelow m g of
        (j, g') \<Rightarrow>
          (case sample_loop k (m - 1) (pool[j := pool ! (m - 1)]) g' of
             (result, g'') \<Rightarrow> (pool ! j # result, g'')))"

definition sample :: "'a list \<Rightarrow> int \<Rightarrow> rng \<Rightarrow> error + ('a list \<times> rng)" where
  "sample population k g =
     (if \<not> (0 \<le> k \<and> k \<le> int (length population)) then Inl ValueError
      else Inr (sample_loop (nat k) (length population) population g))"


section \<open>Actions, environment and agents\<close>

datatype DatingActionType =
  OBSERVE | SEND_MESSAGE | REQUEST_DATE | ACCEPT_DATE | REJECT | EXPRESS_INTEREST

datatype PersonalityTrait = OPENNESS | EXTRAVERSION | AGREEABLENESS

datatype Interest = SPORTS | MUSIC | TRAVEL | FOOD | TECH | ART | GAMING | READING

text \<open>Iterating over an Enum class visits its members in definition order.\<close>

definition PersonalityTrait_members :: "PersonalityTrait list" where
  "PersonalityTrait_members = [OPENNESS, EXTRAVERSION, AGREEABLENESS]"

definition Interest_members :: "Interest list" where
  "Interest_members = [SPORTS, MUSIC, TRAVEL, FOOD, TECH, ART, GAMING, READING]"

text \<open>An \<^verbatim>\<open>Action\<close> is a type and a parameter dictionary (string keys, and in this
  program string values).\<close>

record Action =
  action_type :: DatingActionType
  params :: "(string \<times> string) list"

record message =
  msg_from :: string
  msg_to :: string
  msg_content :: string

text \<open>The relationship dictionary keeps insertion order (the breakup sweep iterates it),
  so it is an association list: \<^verbatim>\<open>d[k] = v\<close> is \<^const>\<open>AList.update\<close> (overwrite in
  place, or append), \<^verbatim>\<open>k in d\<close> is membership in the key list, and \<^verbatim>\<open>del d[k]\<close>
  is \<open>dict_del\<close>, which raises KeyError for a missing key.\<close>

record DatingEnvironment =
  current_time :: nat
  relationships :: "(string \<times> string) list"
  messages :: "message list"
  dates :: "(string \<times> string) list"

definition dict_del :: "string \<Rightarrow> (string \<times> 'v) list \<Rightarrow> error + (string \<times> 'v) list" where
  "dict_del k d = (if k \<in> fst ` set d then Inr (AList.delete k d) else Inl (KeyError k))"

text \<open>What \<^verbatim>\<open>perceive\<close> returns.  Its \<^verbatim>\<open>relationships\<close> entry is a reference to the
  environment's own dictionary, not a copy, so it carries no data of its own and the
  record keeps the time and the filtered messages.\<close>

record observation =
  obs_time :: nat
  obs_messages :: "message list"

record memory_entry =
  mem_observation :: observation
  mem_action :: Action

text \<open>A \<^verbatim>\<open>DatingAgent\<close>: the fields of \<^verbatim>\<open>Agent\<close> (id, memory), the name, and the
  entries of the state dictionary.  The personality dictionary is built over all members
  of \<^verbatim>\<open>PersonalityTrait\<close> and never changed, so it is a total function.\<close>

record DatingAgent =
  agent_id :: string
  memory :: "memory_entry list"
  name :: string
  personality :: "PersonalityTrait \<Rightarrow> real"
  interests :: "Interest list"
  relationship_status :: string
  emotional_state :: real
  relationship_satisfaction :: real

definition get_state :: "DatingEnvironment \<Rightarrow> DatingEnvironment" where
  "get_state env = env"

definition is_valid_action :: "DatingEnvironment \<Rightarrow> DatingAgent \<Rightarrow> Action \<Rightarrow> error + bool" where
  "is_valid_action env agent action =
     (if action_type action = REQUEST_DATE then
        (case map_of (params action) ''target_id'' of
           None \<Rightarrow> Inl (KeyError ''target_id'')
         | Some target_id \<Rightarrow>
             Inr (agent_id agent \<notin> fst ` set (relationships env)
                  \<and> target_id \<notin> fst ` set (relationships env)))
      else Inr True)"

definition update :: "DatingEnvironment \<Rightarrow> DatingEnvironment" where
  "update env = env\<lparr>current_time := current_time env + 1\<rparr>"

definition calculate_compatibility :: "DatingAgent \<Rightarrow> DatingAgent \<Rightarrow> real" where
  "calculate_compatibility self other =
     (let pers_diff = sum_list (map (\<lambda>trait. \<bar>personality self trait - personality other trait\<bar>)
                                    PersonalityTrait_members);
          shared_interests = card (set (interests self) \<inter> set (interests other))
      in (1 - pers_diff / real (length PersonalityTrait_members)) * 0.5
         + (real shared_interests / 5) * 0.5)"



text \<open>\<^verbatim>\<open>perceive\<close>: the time and the messages addressed to this agent.\<close>

definition perceive :: "DatingAgent \<Rightarrow> DatingEnvironment \<Rightarrow> observation" where
  "perceive self env =
     (let env_state = get_state env
      in \<lparr>obs_time = current_time env_state,
          obs_messages = filter (\<lambda>m. msg_to m = agent_id self) (messages env_state)\<rparr>)"

definition try_dating_action :: "DatingAgent \<Rightarrow> rng \<Rightarrow> Action \<times> rng" where
  "try_dating_action self g =
     (case random g of
        (r, g') \<Rightarrow>
          if r < 0.5
          then (\<lparr>action_type = EXPRESS_INTEREST,
                 params = [(''message'', ''Hi! I'' @ [CHR 0x27] @ ''m '' @ name self)]\<rparr>, g')
          else (\<lparr>action_type = REQUEST_DATE, params = [(''target_id'', ''random'')]\<rparr>, g'))"

definition relationship_action :: "DatingAgent \<Rightarrow> Action" where
  "relationship_action self =
     \<lparr>action_type = SEND_MESSAGE, params = [(''message'', ''How are you?'')]\<rparr>"

definition decide :: "DatingAgent \<Rightarrow> observation \<Rightarrow> rng \<Rightarrow> Action \<times> rng" where
  "decide self obs g =
     (case random g of
        (r, g') \<Rightarrow>
          if r < 0.1 then
            (if relationship_status self = ''single'' then try_dating_action self g'
             else (relationship_action self, g'))
          else (\<lparr>action_type = OBSERVE, params = []\<rparr>, g'))"

text \<open>\<^verbatim>\<open>Agent.act\<close>: perceive, decide, append to the memory, return the action.  The
  updated agent is returned with the action.\<close>

definition act :: "DatingAgent \<Rightarrow> DatingEnvironment \<Rightarrow> rng \<Rightarrow> Action \<times> DatingAgent \<times> rng" where
  "act self env g =
     (let obs = perceive self env
      in case decide self obs g of
           (action, g') \<Rightarrow>
             (action,
              self\<lparr>memory := memory self @ [\<lparr>mem_observation = obs, mem_action = action\<rparr>]\<rparr>,
              g'))"

definition update_satisfaction ::
  "DatingAgent \<Rightarrow> DatingAgent \<Rightarrow> rng \<Rightarrow> real \<times> DatingAgent \<times> rng" where
  "update_satisfaction self partner g =
     (let compatibility = calculate_compatibility self partner
      in case uniform (- 0.1) 0.1 g of
           (random_event, g') \<Rightarrow>
             (let self' = self\<lparr>relationship_satisfaction :=
                            max 0 (min 1.0 (relationship_satisfaction self + random_event
                                            + (compatibility - 0.5) * 0.1))\<rparr>
              in (relationship_satisfaction self', self', g')))"

text \<open>\<^verbatim>\<open>DatingAgent.__init__\<close>.  The state dictionary literal is evaluated in order:
  one \<^verbatim>\<open>random()\<close> per trait in definition order, then \<^verbatim>\<open>randint(2, 5)\<close>, then
  \<^verbatim>\<open>sample\<close> of the interests.\<close>

definition DatingAgent_init :: "string \<Rightarrow> string \<Rightarrow> rng \<Rightarrow> error + (DatingAgent \<times> rng)" where
  "DatingAgent_init aid nm g =
     (case random g of (p1, g1) \<Rightarrow>
      case random g1 of (p2, g2) \<Rightarrow>
      case random g2 of (p3, g3) \<Rightarrow>
      case randint 2 5 g3 of
        Inl e \<Rightarrow> Inl e
      | Inr (k, g4) \<Rightarrow>
          (case sample Interest_members k g4 of
             Inl e \<Rightarrow> Inl e
           | Inr (chosen, g5) \<Rightarrow>
               Inr (\<lparr>agent_id = aid, memory = [], name = nm,
                      personality = (\<lambda>trait. case trait of OPENNESS \<Rightarrow> p1
                                              | EXTRAVERSION \<Rightarrow> p2 | AGREEABLENESS \<Rightarrow> p3),
                      interests = chosen,
                      relationship_status = ''single'',
                      emotional_state = 0.5,
                      relationship_satisfaction = 1.0\<rparr>, g5)))"


section \<open>The simulation driver\<close>

text \<open>Console output (\<^verbatim>\<open>print\<close>, \<^verbatim>\<open>_print_interaction\<close> and the reporting methods)
  reads the state and changes nothing; it is left out.\<close>

record stats =
  messages_sent :: nat
  dates_arranged :: nat
  relationships_formed :: nat

text \<open>Agents are Python objects shared between the driver's list, the collected actions
  and the queued breakups.  The driver's list is the store and an object reference is a
  position in it; the list never changes length, so a reference taken from it stays
  valid.\<close>

record DatingSimulation =
  names :: "string list"
  agents :: "DatingAgent list"
  environment :: DatingEnvironment
  stats :: stats

definition name_pool :: "string list" where
  "name_pool = [''Alex'', ''Blair'', ''Casey'', ''Drew'', ''Eden'', ''Frankie'', ''Gray'',
                ''Harper'', ''Indie'', ''Jules'', ''Kennedy'', ''London'', ''Morgan'', ''Nico'',
                ''Oak'', ''Paris'', ''Quinn'', ''Riley'', ''Sage'', ''Taylor'', ''Union'', ''Val'',
                ''Winter'', ''Xen'']"

text \<open>\<^verbatim>\<open>str(i)\<close> for a non-negative integer: its decimal digits.\<close>

definition digit :: "nat \<Rightarrow> char" where
  "digit d = ''0123456789'' ! (d mod 10)"

fun str :: "nat \<Rightarrow> string" where
  "str n = (if n < 10 then [digit n] else str (n div 10) @ [digit (n mod 10)])"

declare str.simps [simp del]

text \<open>The list comprehension of the constructor, over the indices of
  \<^verbatim>\<open>range(num_agents)\<close>.\<close>

fun make_agents :: "nat list \<Rightarrow> string list \<Rightarrow> rng \<Rightarrow> error + (DatingAgent list \<times> rng)" where
  "make_agents [] nms g = Inr ([], g)"
| "make_agents (i # is) nms g =
     (case DatingAgent_init (str i) (nms ! (i mod length nms)) g of
        Inl e \<Rightarrow> Inl e
      | Inr (a, g') \<Rightarrow>
          (case make_agents is nms g' of
             Inl e \<Rightarrow> Inl e
           | Inr (as, g'') \<Rightarrow> Inr (a # as, g'')))"

text \<open>\<^verbatim>\<open>DatingSimulation.__init__\<close>; \<^verbatim>\<open>range(num_agents)\<close> is empty for
  \<open>num_agents \<le> 0\<close>.\<close>

definition DatingSimulation_init :: "int \<Rightarrow> rng \<Rightarrow> error + (DatingSimulation \<times> rng)" where
  "DatingSimulation_init num_agents g =
     (case shuffle name_pool g of
        (nms, g1) \<Rightarrow>
          (case make_agents [0 ..< nat num_agents] nms g1 of
             Inl e \<Rightarrow> Inl e
           | Inr (as, g2) \<Rightarrow>
               Inr (\<lparr>names = nms, agents = as,
                      environment = \<lparr>current_time = 0, relationships = [],
                                     messages = [], dates = []\<rparr>,
                      stats = \<lparr>messages_sent = 0, dates_arranged = 0,
                               relationships_formed = 0\<rparr>\<rparr>, g2)))"

text \<open>First loop of \<^verbatim>\<open>step\<close>: every agent acts once, in list order; the actions
  other than OBSERVE are kept with a reference to their agent.\<close>

fun collect_actions ::
  "nat list \<Rightarrow> DatingSimulation \<Rightarrow> (nat \<times> Action) list \<Rightarrow> rng
     \<Rightarrow> DatingSimulation \<times> (nat \<times> Action) list \<times> rng" where
  "collect_actions [] sim actions g = (sim, actions, g)"
| "collect_actions (i # is) sim actions g =
     (case act (agents sim ! i) (environment sim) g of
        (action, agent', g') \<Rightarrow>
          collect_actions is (sim\<lparr>agents := (agents sim)[i := agent']\<rparr>)
            (if action_type action \<noteq> OBSERVE then actions @ [(i, action)] else actions) g')"

text \<open>The references of the agents other than \<open>i\<close> (by id) that are single now.\<close>

definition single_agents :: "DatingSimulation \<Rightarrow> nat \<Rightarrow> nat list" where
  "single_agents sim i =
     filter (\<lambda>j. agent_id (agents sim ! j) \<noteq> agent_id (agents sim ! i)
                 \<and> relationship_status (agents sim ! j) = ''single'')
            [0 ..< length (agents sim)]"

definition create_relationship :: "DatingSimulation \<Rightarrow> nat \<Rightarrow> nat \<Rightarrow> DatingSimulation" where
  "create_relationship sim agent1 agent2 =
     (let env = environment sim;
          id1 = agent_id (agents sim ! agent1);
          id2 = agent_id (agents sim ! agent2);
          rel1 = AList.update id1 id2 (relationships env);
          rel2 = AList.update id2 id1 rel1;
          as1 = (agents sim)[agent1 := (agents sim ! agent1)\<lparr>relationship_status := ''in_relationship''\<rparr>];
          as2 = as1[agent2 := (as1 ! agent2)\<lparr>relationship_status := ''in_relationship''\<rparr>]
      in sim\<lparr>environment := env\<lparr>relationships := rel2\<rparr>,
              agents := as2,
              stats := (stats sim)\<lparr>relationships_formed := relationships_formed (stats sim) + 1\<rparr>\<rparr>)"

text \<open>Body of the second loop of \<^verbatim>\<open>step\<close>, for one collected action.\<close>

definition process_action ::
  "DatingSimulation \<Rightarrow> nat \<times> Action \<Rightarrow> rng \<Rightarrow> error + (DatingSimulation \<times> rng)" where
  "process_action sim entry g =
     (case entry of
        (agent, action) \<Rightarrow>
          (case is_valid_action (environment sim) (agents sim ! agent) action of
             Inl e \<Rightarrow> Inl e
           | Inr valid \<Rightarrow>
               if \<not> valid then Inr (sim, g)
               else if action_type action = EXPRESS_INTEREST then
                 (if single_agents sim agent \<noteq> [] then
                    (case choice (single_agents sim agent) g of
                       Inl e \<Rightarrow> Inl e
                     | Inr (target, g') \<Rightarrow>
                         (let compatibility =
                                calculate_compatibility (agents sim ! agent) (agents sim ! target)
                          in Inr (sim\<lparr>stats := (stats sim)\<lparr>messages_sent :=
                                                  messages_sent (stats sim) + 1\<rparr>\<rparr>, g')))
                  else Inr (sim, g))
               else if action_type action = REQUEST_DATE then
                 (if single_agents sim agent \<noteq> [] then
                    (case choice (single_agents sim agent) g of
                       Inl e \<Rightarrow> Inl e
                     | Inr (target, g') \<Rightarrow>
                         (let compatibility =
                                calculate_compatibility (agents sim ! agent) (agents sim ! target);
                              sim1 = (if compatibility > 0.7
                                      then create_relationship sim agent target else sim)
                          in Inr (sim1\<lparr>stats := (stats sim1)\<lparr>dates_arranged :=
                                                   dates_arranged (stats sim1) + 1\<rparr>\<rparr>, g')))
                  else Inr (sim, g))
               else Inr (sim, g)))"

fun process_actions ::
  "(nat \<times> Action) list \<Rightarrow> DatingSimulation \<Rightarrow> rng \<Rightarrow> error + (DatingSimulation \<times> rng)" where
  "process_actions [] sim g = Inr (sim, g)"
| "process_actions (entry # rest) sim g =
     (case process_action sim entry g of
        Inl e \<Rightarrow> Inl e
      | Inr (sim', g') \<Rightarrow> process_actions rest sim' g')"

text \<open>\<^verbatim>\<open>next(a for a in self.agents if a.id == agent_id)\<close>: the first agent with that
  id; StopIteration when there is none.\<close>

definition find_agent :: "DatingAgent list \<Rightarrow> string \<Rightarrow> error + nat" where
  "find_agent as aid =
     (case filter (\<lambda>j. agent_id (as ! j) = aid) [0 ..< length as] of
        [] \<Rightarrow> Inl StopIteration
      | j # _ \<Rightarrow> Inr j)"

text \<open>First loop of \<^verbatim>\<open>_check_relationships\<close>, over the snapshot
  \<^verbatim>\<open>list(self.environment.relationships.items())\<close>.\<close>

fun sweep ::
  "(string \<times> string) list \<Rightarrow> DatingSimulation \<Rightarrow> (nat \<times> nat) list \<Rightarrow> rng
     \<Rightarrow> error + (DatingSimulation \<times> (nat \<times> nat) list \<times> rng)" where
  "sweep [] sim breakups g = Inr (sim, breakups, g)"
| "sweep ((aid, pid) # items) sim breakups g =
     (case find_agent (agents sim) aid of
        Inl e \<Rightarrow> Inl e
      | Inr agent \<Rightarrow>
     (case find_agent (agents sim) pid of
        Inl e \<Rightarrow> Inl e
      | Inr partner \<Rightarrow>
     (case update_satisfaction (agents sim ! agent) (agents sim ! partner) g of
        (agent_satisfaction, agent', g1) \<Rightarrow>
     (let as1 = (agents sim)[agent := agent']
      in case update_satisfaction (as1 ! partner) (as1 ! agent) g1 of
        (partner_satisfaction, partner', g2) \<Rightarrow>
     (let as2 = as1[partner := partner'];
          average_satisfaction = (agent_satisfaction + partner_satisfaction) / 2;
          breakup_chance = (1 - average_satisfaction) * 0.1
      in case random g2 of
        (r, g3) \<Rightarrow>
          sweep items (sim\<lparr>agents := as2\<rparr>)
            (if r < breakup_chance then breakups @ [(agent, partner)] else breakups) g3)))))"

definition break_relationship :: "DatingSimulation \<Rightarrow> nat \<Rightarrow> nat \<Rightarrow> error + DatingSimulation" where
  "break_relationship sim agent1 agent2 =
     (let env = environment sim
      in case dict_del (agent_id (agents sim ! agent1)) (relationships env) of
           Inl e \<Rightarrow> Inl e
         | Inr rel1 \<Rightarrow>
             (case dict_del (agent_id (agents sim ! agent2)) rel1 of
                Inl e \<Rightarrow> Inl e
              | Inr rel2 \<Rightarrow>
                  (let as0 = agents sim;
                       as1 = as0[agent1 := (as0 ! agent1)\<lparr>relationship_status := ''single''\<rparr>];
                       as2 = as1[agent2 := (as1 ! agent2)\<lparr>relationship_status := ''single''\<rparr>];
                       as3 = as2[agent1 := (as2 ! agent1)\<lparr>relationship_satisfaction := 1.0\<rparr>];
                       as4 = as3[agent2 := (as3 ! agent2)\<lparr>relationship_satisfaction := 1.0\<rparr>]
                   in Inr (sim\<lparr>environment := env\<lparr>relationships := rel2\<rparr>, agents := as4\<rparr>))))"

fun process_breakups :: "(nat \<times> nat) list \<Rightarrow> DatingSimulation \<Rightarrow> error + DatingSimulation" where
  "process_breakups [] sim = Inr sim"
| "process_breakups ((agent, partner) # rest) sim =
     (case break_relationship sim agent partner of
        Inl e \<Rightarrow> Inl e
      | Inr sim' \<Rightarrow> process_breakups rest sim')"

definition check_relationships :: "DatingSimulation \<Rightarrow> rng \<Rightarrow> error + (DatingSimulation \<times> rng)" where
  "check_relationships sim g =
     (case sweep (relationships (environment sim)) sim [] g of
        Inl e \<Rightarrow> Inl e
      | Inr (sim1, breakups, g') \<Rightarrow>
          (case process_breakups breakups sim1 of
             Inl e \<Rightarrow> Inl e
           | Inr sim2 \<Rightarrow> Inr (sim2, g')))"

definition step :: "DatingSimulation \<Rightarrow> rng \<Rightarrow> error + (DatingSimulation \<times> rng)" where
  "step sim g =
     (case collect_actions [0 ..< length (agents sim)] sim [] g of
        (sim1, actions, g1) \<Rightarrow>
          (case process_actions actions sim1 g1 of
             Inl e \<Rightarrow> Inl e
           | Inr (sim2, g2) \<Rightarrow>
               (case check_relationships sim2 g2 of
                  Inl e \<Rightarrow> Inl e
                | Inr (sim3, g3) \<Rightarrow>
                    Inr (sim3\<lparr>environment := update (environment sim3)\<rparr>, g3))))"

text \<open>\<open>n\<close> successive ticks; an error ends the run, as the exception would.\<close>

fun steps :: "nat \<Rightarrow> DatingSimulation \<Rightarrow> rng \<Rightarrow> error + (DatingSimulation \<times> rng)" where
  "steps 0 sim g = Inr (sim, g)"
| "steps (Suc n) sim g =
     (case step sim g of
        Inl e \<Rightarrow> Inl e
      | Inr (sim', g') \<Rightarrow> steps n sim' g')"


section \<open>Invariants\<close>

text \<open>The driver's working invariant: agent ids are unique, the relationship dictionary
  has unique keys, every entry has its mirror image and no agent is paired with itself,
  the number of entries is even, and an agent has status \<open>in_relationship\<close> exactly when
  its id is a key.\<close>

definition wf_sim :: "DatingSimulation \<Rightarrow> bool" where
  "wf_sim sim \<longleftrightarrow>
     (let ids = map agent_id (agents sim);
          sts = map relationship_status (agents sim);
          rel = relationships (environment sim)
      in distinct ids \<and> distinct (map fst rel)
         \<and> (\<forall>(a, b) \<in> set rel. (b, a) \<in> set rel \<and> a \<noteq> b)
         \<and> even (length rel)
         \<and> (\<forall>i < length ids. sts ! i = ''in_relationship'' \<longleftrightarrow> ids ! i \<in> fst ` set rel))"

text \<open>Every satisfaction and every trait score lies in \<open>[0, 1]\<close>.\<close>

definition bounded_sim :: "DatingSimulation \<Rightarrow> bool" where
  "bounded_sim sim \<longleftrightarrow>
     (\<forall>v \<in> set (map relationship_satisfaction (agents sim)). 0 \<le> v \<and> v \<le> 1)
     \<and> (\<forall>p \<in> set (map personality (agents sim)). \<forall>t. 0 \<le> p t \<and> p t \<le> 1)"


section \<open>Runs\<close>

text \<open>Seeding the generator fixes its tape and rewinds it.\<close>

definition seeded :: "(nat \<Rightarrow> nat) \<Rightarrow> rng" where
  "seeded t = \<lparr>tape = t, pos = 0\<rparr>"

text \<open>Construct a simulation from a seeded generator and run \<open>n\<close> ticks.\<close>

definition run :: "int \<Rightarrow> (nat \<Rightarrow> nat) \<Rightarrow> nat \<Rightarrow> error + (DatingSimulation \<times> rng)" where
  "run num_agents t n =
     (case DatingSimulation_init num_agents (seeded t) of
        Inl e \<Rightarrow> Inl e
      | Inr (sim, g) \<Rightarrow> steps n sim g)"

text \<open>The name list after the constructor's shuffle.\<close>

definition shuffled_names :: "rng \<Rightarrow> string list" where
  "shuffled_names g = fst (shuffle name_pool g)"


section \<open>Concrete inputs\<close>

text \<open>An agent with the same score \<open>p\<close> for every trait, used to run the scoring
  functions on concrete data.\<close>

definition demo_agent :: "string \<Rightarrow> real \<Rightarrow> Interest list \<Rightarrow> DatingAgent" where
  "demo_agent aid p chosen =
     \<lparr>agent_id = aid, memory = [], name = ''Alex'',
      personality = (\<lambda>trait. case trait of OPENNESS \<Rightarrow> p | EXTRAVERSION \<Rightarrow> p
                              | AGREEABLENESS \<Rightarrow> p),
      interests = chosen, relationship_status = ''single'', emotional_state = 0.5,
      relationship_satisfaction = 1.0\<rparr>"


text \<open>Two seeds for a population of two.  Cells 0 to 22 feed the shuffle, 23 to 36 the
  two constructors (both agents get all-zero traits and the interests SPORTS, READING,
  GAMING, so their compatibility is 0.8).  In the first tick agent 0 requests a date
  (cells 37, 38), agent 1 observes (cell 39), the target is chosen (cell 40) and the
  relationship forms.  Cells 41 onwards feed the breakup sweep of that same tick: with
  \<open>couple_tape\<close> no breakup draw falls below its chance, with \<open>crash_tape\<close> every
  one does.\<close>

definition couple_tape :: "nat \<Rightarrow> nat" where
  "couple_tape n = (if n = 26 \<or> n = 33 then 1
                    else if n = 38 \<or> n = 39 \<or> n = 43 \<or> n = 46 then 2 ^ 52 else 0)"

definition crash_tape :: "nat \<Rightarrow> nat" where
  "crash_tape n = (if n = 26 \<or> n = 33 then 1 else if n = 38 \<or> n = 39 then 2 ^ 52 else 0)"


section \<open>Facts about the random source\<close>

lemma random_range: "0 \<le> fst (random g) \<and> fst (random g) < 1"
proof -
  have "real (tape g (pos g) mod 2 ^ 53) < 2 ^ 53"
    by (metis mod_less_divisor of_nat_less_iff of_nat_numeral of_nat_power zero_less_numeral zero_less_power)
  then show ?thesis by (simp add: random_def next_raw_def)
qed

lemma random_snd: "snd (random g) = g\<lparr>pos := Suc (pos g)\<rparr>"
  by (simp add: random_def next_raw_def)

lemma randbelow_lt: "0 < n \<Longrightarrow> fst (randbelow n g) < n"
  by (simp add: randbelow_def next_raw_def)

lemma randbelow_snd: "snd (randbelow n g) = g\<lparr>pos := Suc (pos g)\<rparr>"
  by (simp add: randbelow_def next_raw_def)

lemma uniform_range:
  "a \<le> b \<Longrightarrow> a \<le> fst (uniform a b g) \<and> fst (uniform a b g) \<le> b"
proof -
  assume ab: "a \<le> b"
  obtain r g' where r: "random g = (r, g')" by (cases "random g")
  with random_range [of g] have r01: "0 \<le> r" "r < 1" by simp_all
  have "0 \<le> (b - a) * r" using ab r01 by simp
  moreover have "(b - a) * r \<le> (b - a) * 1"
    using ab r01 by (intro mult_left_mono) simp_all
  ultimately show ?thesis using r by (simp add: uniform_def)
qed

lemma choice_mem: "choice xs g = Inr (x, g') \<Longrightarrow> x \<in> set xs"
  using randbelow_lt [of "length xs" g]
  by (auto simp: choice_def split: if_splits prod.splits)

lemma map_update_same: "f y = f (xs ! i) \<Longrightarrow> map f (xs[i := y]) = map f xs"
  by (cases "i < length xs") (simp_all add: list_eq_iff_nth_eq nth_list_update)

section \<open>Invariants of a tick\<close>

subsection \<open>The first loop changes memories only\<close>

lemma act_agent:
  "act a env g = (action, a', g') \<Longrightarrow> \<exists>m. a' = a\<lparr>memory := m\<rparr>"
  by (auto simp: act_def Let_def split: prod.splits)

lemma collect_actions_frame:
  "collect_actions is sim acts g = (sim', acts', g') \<Longrightarrow>
     map agent_id (agents sim') = map agent_id (agents sim)
     \<and> map relationship_status (agents sim') = map relationship_status (agents sim)
     \<and> map relationship_satisfaction (agents sim') = map relationship_satisfaction (agents sim)
     \<and> map personality (agents sim') = map personality (agents sim)
     \<and> map interests (agents sim') = map interests (agents sim)
     \<and> environment sim' = environment sim \<and> stats sim' = stats sim \<and> names sim' = names sim"
proof (induction "is" arbitrary: sim acts g)
  case Nil
  then show ?case by simp
next
  case (Cons i "is")
  obtain action a' g1 where a: "act (agents sim ! i) (environment sim) g = (action, a', g1)"
    by (cases "act (agents sim ! i) (environment sim) g")
  from act_agent [OF a] obtain m where a': "a' = (agents sim ! i)\<lparr>memory := m\<rparr>" ..
  let ?sim1 = "sim\<lparr>agents := (agents sim)[i := a']\<rparr>"
  from Cons.prems a have
    "collect_actions is ?sim1
       (if action_type action \<noteq> OBSERVE then acts @ [(i, action)] else acts) g1 = (sim', acts', g')"
    by simp
  from Cons.IH [OF this] show ?case
    by (simp add: a' map_update_same)
qed

lemma collect_actions_refs:
  "collect_actions is sim acts g = (sim', acts', g') \<Longrightarrow>
     fst ` set acts' \<subseteq> fst ` set acts \<union> set is"
proof (induction "is" arbitrary: sim acts g)
  case Nil
  then show ?case by simp
next
  case (Cons i "is")
  obtain action a' g1 where a: "act (agents sim ! i) (environment sim) g = (action, a', g1)"
    by (cases "act (agents sim ! i) (environment sim) g")
  from Cons.prems a have
    "collect_actions is (sim\<lparr>agents := (agents sim)[i := a']\<rparr>)
       (if action_type action \<noteq> OBSERVE then acts @ [(i, action)] else acts) g1 = (sim', acts', g')"
    by simp
  from Cons.IH [OF this] show ?case
    by (auto split: if_splits)
qed


subsection \<open>Creating a relationship\<close>

lemma update_fresh: "k \<notin> fst ` set al \<Longrightarrow> AList.update k v al = al @ [(k, v)]"
  by (induction al) auto

lemma create_relationship_rel:
  assumes "agent_id (agents sim ! i) \<notin> fst ` set (relationships (environment sim))"
    and "agent_id (agents sim ! t) \<notin> fst ` set (relationships (environment sim))"
    and "agent_id (agents sim ! i) \<noteq> agent_id (agents sim ! t)"
  shows "relationships (environment (create_relationship sim i t)) =
           relationships (environment sim)
           @ [(agent_id (agents sim ! i), agent_id (agents sim ! t)),
              (agent_id (agents sim ! t), agent_id (agents sim ! i))]"
  using assms by (simp add: create_relationship_def Let_def update_fresh)

lemma create_relationship_ids:
  "map agent_id (agents (create_relationship sim i t)) = map agent_id (agents sim)"
  by (simp add: create_relationship_def Let_def map_update_same)

lemma create_relationship_sts:
  "map relationship_status (agents (create_relationship sim i t)) =
     (map relationship_status (agents sim))[i := ''in_relationship'', t := ''in_relationship'']"
  by (simp add: create_relationship_def Let_def map_update)

lemma create_relationship_frame:
  "map relationship_satisfaction (agents (create_relationship sim i t))
     = map relationship_satisfaction (agents sim)
   \<and> map personality (agents (create_relationship sim i t)) = map personality (agents sim)
   \<and> map interests (agents (create_relationship sim i t)) = map interests (agents sim)
   \<and> length (agents (create_relationship sim i t)) = length (agents sim)"
  by (simp add: create_relationship_def Let_def map_update_same)

lemma create_relationship_wf:
  assumes wf: "wf_sim sim"
    and i: "i < length (agents sim)" and t: "t < length (agents sim)"
    and ne: "agent_id (agents sim ! t) \<noteq> agent_id (agents sim ! i)"
    and fresh: "agent_id (agents sim ! i) \<notin> fst ` set (relationships (environment sim))"
    and single: "relationship_status (agents sim ! t) = ''single''"
  shows "wf_sim (create_relationship sim i t)"
proof -
  let ?rel = "relationships (environment sim)"
  let ?ids = "map agent_id (agents sim)"
  let ?sts = "map relationship_status (agents sim)"
  let ?a = "agent_id (agents sim ! i)" and ?b = "agent_id (agents sim ! t)"
  from wf have d_ids: "distinct ?ids" and d_keys: "distinct (map fst ?rel)"
    and sym: "\<forall>(a, b) \<in> set ?rel. (b, a) \<in> set ?rel \<and> a \<noteq> b"
    and ev: "even (length ?rel)"
    and st: "\<forall>j < length ?ids. ?sts ! j = ''in_relationship'' \<longleftrightarrow> ?ids ! j \<in> fst ` set ?rel"
    by (simp_all add: wf_sim_def Let_def)
  have "?sts ! t \<noteq> ''in_relationship''" using t single by simp
  moreover have "t < length ?ids" using t by simp
  ultimately have "?ids ! t \<notin> fst ` set ?rel" using st by blast
  then have fresh_t: "?b \<notin> fst ` set ?rel" using t by simp
  have rel': "relationships (environment (create_relationship sim i t)) = ?rel @ [(?a, ?b), (?b, ?a)]"
    using create_relationship_rel [OF fresh fresh_t] ne by simp
  have it: "i \<noteq> t" using ne by auto
  have idx: "?ids ! j = ?a \<longleftrightarrow> j = i" "?ids ! j = ?b \<longleftrightarrow> j = t" if "j < length ?ids" for j
    using d_ids i t that by (simp_all add: nth_eq_iff_index_eq [symmetric])
  show ?thesis
    unfolding wf_sim_def Let_def rel' create_relationship_ids create_relationship_sts
  proof (intro conjI allI impI)
    show "distinct ?ids" by (rule d_ids)
    show "distinct (map fst (?rel @ [(?a, ?b), (?b, ?a)]))"
      using d_keys fresh fresh_t ne by auto
    show "\<forall>(a, b) \<in> set (?rel @ [(?a, ?b), (?b, ?a)]).
            (b, a) \<in> set (?rel @ [(?a, ?b), (?b, ?a)]) \<and> a \<noteq> b"
      using sym ne by auto
    show "even (length (?rel @ [(?a, ?b), (?b, ?a)]))" using ev by simp
  next
    fix j assume j: "j < length ?ids"
    show "(?sts[i := ''in_relationship'', t := ''in_relationship''] ! j = ''in_relationship'')
          = (?ids ! j \<in> fst ` set (?rel @ [(?a, ?b), (?b, ?a)]))"
    proof (cases "j = i \<or> j = t")
      case True
      then show ?thesis using i t j by (auto simp: nth_list_update)
    next
      case False
      then have "?sts[i := ''in_relationship'', t := ''in_relationship''] ! j = ?sts ! j" by simp
      moreover have "?ids ! j \<noteq> ?a" "?ids ! j \<noteq> ?b" using idx [OF j] False by simp_all
      ultimately show ?thesis using st j by auto
    qed
  qed
qed


subsection \<open>Processing one action\<close>

lemma wf_sim_cong:
  assumes "map agent_id (agents s') = map agent_id (agents s)"
    and "map relationship_status (agents s') = map relationship_status (agents s)"
    and "relationships (environment s') = relationships (environment s)"
  shows "wf_sim s' = wf_sim s"
  unfolding wf_sim_def by (simp only: assms)

lemma bounded_sim_cong:
  assumes "map relationship_satisfaction (agents s') = map relationship_satisfaction (agents s)"
    and "map personality (agents s') = map personality (agents s)"
  shows "bounded_sim s' = bounded_sim s"
  unfolding bounded_sim_def by (simp only: assms)

lemma single_agents_mem:
  "t \<in> set (single_agents sim i) \<Longrightarrow>
     t < length (agents sim) \<and> agent_id (agents sim ! t) \<noteq> agent_id (agents sim ! i)
     \<and> relationship_status (agents sim ! t) = ''single''"
  by (simp add: single_agents_def)

lemma is_valid_action_request:
  "is_valid_action env a action = Inr True \<Longrightarrow> action_type action = REQUEST_DATE \<Longrightarrow>
     agent_id a \<notin> fst ` set (relationships env)"
  by (auto simp: is_valid_action_def split: option.splits)

text \<open>What one processed action does, case by case.\<close>

lemma process_action_cases:
  assumes "process_action sim (i, action) g = Inr (sim', g')"
  shows "(sim' = sim \<and> g' = g)
       \<or> (action_type action = EXPRESS_INTEREST
            \<and> single_agents sim i \<noteq> []
            \<and> (\<exists>t. choice (single_agents sim i) g = Inr (t, g'))
            \<and> sim' = sim\<lparr>stats := (stats sim)\<lparr>messages_sent := messages_sent (stats sim) + 1\<rparr>\<rparr>)
       \<or> (action_type action = REQUEST_DATE
            \<and> is_valid_action (environment sim) (agents sim ! i) action = Inr True
            \<and> single_agents sim i \<noteq> []
            \<and> (\<exists>t. choice (single_agents sim i) g = Inr (t, g')
                  \<and> \<not> calculate_compatibility (agents sim ! i) (agents sim ! t) > 0.7)
            \<and> sim' = sim\<lparr>stats := (stats sim)\<lparr>dates_arranged := dates_arranged (stats sim) + 1\<rparr>\<rparr>)
       \<or> (action_type action = REQUEST_DATE
            \<and> is_valid_action (environment sim) (agents sim ! i) action = Inr True
            \<and> single_agents sim i \<noteq> []
            \<and> (\<exists>t. choice (single_agents sim i) g = Inr (t, g')
                  \<and> calculate_compatibility (agents sim ! i) (agents sim ! t) > 0.7
                  \<and> sim' = (create_relationship sim i t)
                       \<lparr>stats := (stats (create_relationship sim i t))
                          \<lparr>dates_arranged := dates_arranged (stats (create_relationship sim i t)) + 1\<rparr>\<rparr>))"
  using assms
  by (auto simp: process_action_def Let_def split: sum.splits if_splits)


text \<open>A rejected action and an action without an eligible target change nothing and
  draw nothing.\<close>

lemma process_action_rejected:
  "is_valid_action (environment sim) (agents sim ! i) action = Inr False \<Longrightarrow>
     process_action sim (i, action) g = Inr (sim, g)"
  by (simp add: process_action_def)

lemma process_action_no_target:
  "is_valid_action (environment sim) (agents sim ! i) action = Inr True \<Longrightarrow>
   single_agents sim i = [] \<Longrightarrow>
     process_action sim (i, action) g = Inr (sim, g)"
  by (simp add: process_action_def)

lemma process_action_frame:
  assumes "process_action sim (i, action) g = Inr (sim', g')"
  shows "map agent_id (agents sim') = map agent_id (agents sim)
     \<and> map relationship_satisfaction (agents sim') = map relationship_satisfaction (agents sim)
     \<and> map personality (agents sim') = map personality (agents sim)
     \<and> map interests (agents sim') = map interests (agents sim)"
  using process_action_cases [OF assms]
  by (auto simp: create_relationship_frame create_relationship_ids)

lemma process_action_wf:
  assumes wf: "wf_sim sim" and i: "i < length (agents sim)"
    and p: "process_action sim (i, action) g = Inr (sim', g')"
  shows "wf_sim sim'"
proof -
  have stats_irrelevant: "wf_sim (s\<lparr>stats := x\<rparr>) = wf_sim s" for s x
    by (rule wf_sim_cong) simp_all
  from process_action_cases [OF p] show ?thesis
  proof (elim disjE conjE exE)
    assume "sim' = sim" then show ?thesis using wf by simp
  next
    assume "sim' = sim\<lparr>stats := (stats sim)\<lparr>messages_sent := messages_sent (stats sim) + 1\<rparr>\<rparr>"
    then show ?thesis using wf by (simp only: stats_irrelevant)
  next
    assume "sim' = sim\<lparr>stats := (stats sim)\<lparr>dates_arranged := dates_arranged (stats sim) + 1\<rparr>\<rparr>"
    then show ?thesis using wf by (simp only: stats_irrelevant)
  next
    fix t
    assume req: "action_type action = REQUEST_DATE"
      and valid: "is_valid_action (environment sim) (agents sim ! i) action = Inr True"
      and ch: "choice (single_agents sim i) g = Inr (t, g')"
      and sim': "sim' = (create_relationship sim i t)
                       \<lparr>stats := (stats (create_relationship sim i t))
                          \<lparr>dates_arranged := dates_arranged (stats (create_relationship sim i t)) + 1\<rparr>\<rparr>"
    from single_agents_mem [OF choice_mem [OF ch]]
    have t: "t < length (agents sim)"
      and ne: "agent_id (agents sim ! t) \<noteq> agent_id (agents sim ! i)"
      and single: "relationship_status (agents sim ! t) = ''single''" by simp_all
    from create_relationship_wf [OF wf i t ne is_valid_action_request [OF valid req] single]
    show ?thesis unfolding sim' by (simp only: stats_irrelevant)
  qed
qed

lemma process_actions_wf:
  assumes "wf_sim sim" and "\<forall>e \<in> set acts. fst e < length (agents sim)"
    and "process_actions acts sim g = Inr (sim', g')"
  shows "wf_sim sim'"
  using assms
proof (induction acts arbitrary: sim g)
  case Nil
  then show ?case by simp
next
  case (Cons e acts)
  obtain i action where e: "e = (i, action)" by (cases e)
  from Cons.prems(3) obtain sim1 g1 where
    p: "process_action sim (i, action) g = Inr (sim1, g1)"
    and rest: "process_actions acts sim1 g1 = Inr (sim', g')"
    by (auto simp: e split: sum.splits)
  from Cons.prems(2) have i: "i < length (agents sim)" by (simp add: e)
  have wf1: "wf_sim sim1" by (rule process_action_wf [OF Cons.prems(1) i p])
  have "length (agents sim1) = length (agents sim)"
    using process_action_frame [OF p] by (metis length_map)
  with Cons.prems(2) have "\<forall>e \<in> set acts. fst e < length (agents sim1)" by simp
  from Cons.IH [OF wf1 this rest] show ?case .
qed

lemma process_actions_frame:
  assumes "process_actions acts sim g = Inr (sim', g')"
  shows "map agent_id (agents sim') = map agent_id (agents sim)
     \<and> map relationship_satisfaction (agents sim') = map relationship_satisfaction (agents sim)
     \<and> map personality (agents sim') = map personality (agents sim)
     \<and> map interests (agents sim') = map interests (agents sim)"
  using assms
proof (induction acts arbitrary: sim g)
  case Nil
  then show ?case by simp
next
  case (Cons e acts)
  obtain i action where e: "e = (i, action)" by (cases e)
  from Cons.prems obtain sim1 g1 where
    p: "process_action sim (i, action) g = Inr (sim1, g1)"
    and rest: "process_actions acts sim1 g1 = Inr (sim', g')"
    by (auto simp: e split: sum.splits)
  from Cons.IH [OF rest] process_action_frame [OF p] show ?case by simp
qed


subsection \<open>The breakup sweep\<close>

lemma find_agent_Inr:
  "find_agent as aid = Inr j \<Longrightarrow> j < length as \<and> agent_id (as ! j) = aid"
proof -
  assume "find_agent as aid = Inr j"
  then obtain rest where "filter (\<lambda>j. agent_id (as ! j) = aid) [0 ..< length as] = j # rest"
    by (auto simp: find_agent_def split: list.splits)
  then have "j \<in> set (filter (\<lambda>j. agent_id (as ! j) = aid) [0 ..< length as])" by simp
  then show ?thesis by simp
qed

lemma update_satisfaction_result:
  "update_satisfaction a p g = (v, a', g') \<Longrightarrow>
     a' = a\<lparr>relationship_satisfaction := v\<rparr> \<and> 0 \<le> v \<and> v \<le> 1"
  by (auto simp: update_satisfaction_def Let_def split: prod.splits)

lemma set_map_update_subset:
  "set (map f (xs[i := y])) \<subseteq> insert (f y) (set (map f xs))"
  by (metis map_update set_update_subset_insert)

lemma sweep_frame:
  assumes "sweep items sim bs g = Inr (sim', bs', g')"
  shows "map agent_id (agents sim') = map agent_id (agents sim)
     \<and> map relationship_status (agents sim') = map relationship_status (agents sim)
     \<and> map personality (agents sim') = map personality (agents sim)
     \<and> map interests (agents sim') = map interests (agents sim)
     \<and> environment sim' = environment sim \<and> stats sim' = stats sim"
  using assms
proof (induction items arbitrary: sim bs g)
  case Nil
  then show ?case by simp
next
  case (Cons item items)
  obtain aid pid where item: "item = (aid, pid)" by (cases item)
  from Cons.prems obtain a p where a: "find_agent (agents sim) aid = Inr a"
    and p: "find_agent (agents sim) pid = Inr p"
    by (auto simp: item split: sum.splits)
  obtain v1 a' g1 where u1: "update_satisfaction (agents sim ! a) (agents sim ! p) g = (v1, a', g1)"
    by (cases "update_satisfaction (agents sim ! a) (agents sim ! p) g")
  let ?as1 = "(agents sim)[a := a']"
  obtain v2 p' g2 where u2: "update_satisfaction (?as1 ! p) (?as1 ! a) g1 = (v2, p', g2)"
    by (cases "update_satisfaction (?as1 ! p) (?as1 ! a) g1")
  obtain r g3 where r: "random g2 = (r, g3)" by (cases "random g2")
  let ?sim1 = "sim\<lparr>agents := ?as1[p := p']\<rparr>"
  from Cons.prems have rest: "sweep items ?sim1
      (if r < (1 - (v1 + v2) / 2) * 0.1 then bs @ [(a, p)] else bs) g3 = Inr (sim', bs', g')"
    by (simp add: item a p u1 u2 r Let_def)
  have a': "a' = (agents sim ! a)\<lparr>relationship_satisfaction := v1\<rparr>"
    using update_satisfaction_result [OF u1] by simp
  have p': "p' = (?as1 ! p)\<lparr>relationship_satisfaction := v2\<rparr>"
    using update_satisfaction_result [OF u2] by simp
  have "map agent_id (agents ?sim1) = map agent_id (agents sim)"
    "map relationship_status (agents ?sim1) = map relationship_status (agents sim)"
    "map personality (agents ?sim1) = map personality (agents sim)"
    "map interests (agents ?sim1) = map interests (agents sim)"
    by (simp_all add: a' p' map_update_same)
  with Cons.IH [OF rest] show ?case by simp
qed

lemma sweep_satisfaction:
  assumes "sweep items sim bs g = Inr (sim', bs', g')"
    and "\<forall>v \<in> set (map relationship_satisfaction (agents sim)). 0 \<le> v \<and> v \<le> 1"
  shows "\<forall>v \<in> set (map relationship_satisfaction (agents sim')). 0 \<le> v \<and> v \<le> 1"
  using assms
proof (induction items arbitrary: sim bs g)
  case Nil
  then show ?case by simp
next
  case (Cons item items)
  obtain aid pid where item: "item = (aid, pid)" by (cases item)
  from Cons.prems(1) obtain a p where a: "find_agent (agents sim) aid = Inr a"
    and p: "find_agent (agents sim) pid = Inr p"
    by (auto simp: item split: sum.splits)
  obtain v1 a' g1 where u1: "update_satisfaction (agents sim ! a) (agents sim ! p) g = (v1, a', g1)"
    by (cases "update_satisfaction (agents sim ! a) (agents sim ! p) g")
  let ?as1 = "(agents sim)[a := a']"
  obtain v2 p' g2 where u2: "update_satisfaction (?as1 ! p) (?as1 ! a) g1 = (v2, p', g2)"
    by (cases "update_satisfaction (?as1 ! p) (?as1 ! a) g1")
  obtain r g3 where r: "random g2 = (r, g3)" by (cases "random g2")
  let ?sim1 = "sim\<lparr>agents := ?as1[p := p']\<rparr>"
  from Cons.prems(1) have rest: "sweep items ?sim1
      (if r < (1 - (v1 + v2) / 2) * 0.1 then bs @ [(a, p)] else bs) g3 = Inr (sim', bs', g')"
    by (simp add: item a p u1 u2 r Let_def)
  have b1: "relationship_satisfaction a' = v1" "0 \<le> v1" "v1 \<le> 1"
    using update_satisfaction_result [OF u1] by simp_all
  have b2: "relationship_satisfaction p' = v2" "0 \<le> v2" "v2 \<le> 1"
    using update_satisfaction_result [OF u2] by simp_all
  have "set (map relationship_satisfaction (?as1[p := p']))
          \<subseteq> insert v2 (insert v1 (set (map relationship_satisfaction (agents sim))))"
    using set_map_update_subset [of relationship_satisfaction ?as1 p p']
      set_map_update_subset [of relationship_satisfaction "agents sim" a a'] b1(1) b2(1)
    by auto
  with Cons.prems(2) b1 b2
  have "\<forall>v \<in> set (map relationship_satisfaction (agents ?sim1)). 0 \<le> v \<and> v \<le> 1"
    by auto
  from Cons.IH [OF rest this] show ?case .
qed

lemma sweep_queue:
  assumes "sweep items sim bs g = Inr (sim', bs', g')"
  shows "\<forall>e \<in> set bs'. e \<in> set bs \<or>
           (fst e < length (agents sim) \<and> snd e < length (agents sim)
            \<and> (agent_id (agents sim ! fst e), agent_id (agents sim ! snd e)) \<in> set items)"
  using assms
proof (induction items arbitrary: sim bs g)
  case Nil
  then show ?case by simp
next
  case (Cons item items)
  obtain aid pid where item: "item = (aid, pid)" by (cases item)
  from Cons.prems(1) obtain a p where a: "find_agent (agents sim) aid = Inr a"
    and p: "find_agent (agents sim) pid = Inr p"
    by (auto simp: item split: sum.splits)
  obtain v1 a' g1 where u1: "update_satisfaction (agents sim ! a) (agents sim ! p) g = (v1, a', g1)"
    by (cases "update_satisfaction (agents sim ! a) (agents sim ! p) g")
  let ?as1 = "(agents sim)[a := a']"
  obtain v2 p' g2 where u2: "update_satisfaction (?as1 ! p) (?as1 ! a) g1 = (v2, p', g2)"
    by (cases "update_satisfaction (?as1 ! p) (?as1 ! a) g1")
  obtain r g3 where r: "random g2 = (r, g3)" by (cases "random g2")
  let ?sim1 = "sim\<lparr>agents := ?as1[p := p']\<rparr>"
  let ?bs1 = "if r < (1 - (v1 + v2) / 2) * 0.1 then bs @ [(a, p)] else bs"
  from Cons.prems(1) have rest: "sweep items ?sim1 ?bs1 g3 = Inr (sim', bs', g')"
    by (simp add: item a p u1 u2 r Let_def)
  have a': "a' = (agents sim ! a)\<lparr>relationship_satisfaction := v1\<rparr>"
    using update_satisfaction_result [OF u1] by simp
  have p': "p' = (?as1 ! p)\<lparr>relationship_satisfaction := v2\<rparr>"
    using update_satisfaction_result [OF u2] by simp
  have ids: "map agent_id (agents ?sim1) = map agent_id (agents sim)"
    by (simp add: a' p' map_update_same)
  then have idn: "agent_id (agents ?sim1 ! j) = agent_id (agents sim ! j)"
    if "j < length (agents sim)" for j
    using that by (metis length_map nth_map)
  have len: "length (agents ?sim1) = length (agents sim)" by simp
  note fa = find_agent_Inr [OF a] and fp = find_agent_Inr [OF p]
  show ?case
  proof
    fix e assume "e \<in> set bs'"
    with Cons.IH [OF rest] have
      "e \<in> set ?bs1 \<or>
         (fst e < length (agents ?sim1) \<and> snd e < length (agents ?sim1)
          \<and> (agent_id (agents ?sim1 ! fst e), agent_id (agents ?sim1 ! snd e)) \<in> set items)"
      by blast
    then show "e \<in> set bs \<or>
           (fst e < length (agents sim) \<and> snd e < length (agents sim)
            \<and> (agent_id (agents sim ! fst e), agent_id (agents sim ! snd e)) \<in> set (item # items))"
    proof
      assume "e \<in> set ?bs1"
      then have "e \<in> set bs \<or> e = (a, p)" by (auto split: if_splits)
      then show ?thesis using fa fp item by auto
    next
      assume h: "fst e < length (agents ?sim1) \<and> snd e < length (agents ?sim1)
          \<and> (agent_id (agents ?sim1 ! fst e), agent_id (agents ?sim1 ! snd e)) \<in> set items"
      then have "fst e < length (agents sim)" "snd e < length (agents sim)" by simp_all
      with h idn show ?thesis by (simp del: DatingSimulation.simps)
    qed
  qed
qed


text \<open>Each entry of the swept list costs three draws: one \<^verbatim>\<open>uniform\<close> per side and one
  breakup draw.  The list is the relationship dictionary, which holds two entries per
  couple.\<close>

lemma update_satisfaction_pos:
  "pos (snd (snd (update_satisfaction a p g))) = Suc (pos g)"
  by (simp add: update_satisfaction_def uniform_def random_def next_raw_def Let_def)

lemma sweep_draws:
  "sweep items sim bs g = Inr (sim', bs', g') \<Longrightarrow> pos g' = pos g + 3 * length items"
proof (induction items arbitrary: sim bs g)
  case Nil
  then show ?case by simp
next
  case (Cons item items)
  obtain aid pid where item: "item = (aid, pid)" by (cases item)
  from Cons.prems obtain a p where a: "find_agent (agents sim) aid = Inr a"
    and p: "find_agent (agents sim) pid = Inr p"
    by (auto simp: item split: sum.splits)
  obtain v1 a' g1 where u1: "update_satisfaction (agents sim ! a) (agents sim ! p) g = (v1, a', g1)"
    by (cases "update_satisfaction (agents sim ! a) (agents sim ! p) g")
  let ?as1 = "(agents sim)[a := a']"
  obtain v2 p' g2 where u2: "update_satisfaction (?as1 ! p) (?as1 ! a) g1 = (v2, p', g2)"
    by (cases "update_satisfaction (?as1 ! p) (?as1 ! a) g1")
  obtain r g3 where r: "random g2 = (r, g3)" by (cases "random g2")
  from Cons.prems have rest: "sweep items (sim\<lparr>agents := ?as1[p := p']\<rparr>)
      (if r < (1 - (v1 + v2) / 2) * 0.1 then bs @ [(a, p)] else bs) g3 = Inr (sim', bs', g')"
    by (simp add: item a p u1 u2 r Let_def)
  have "pos g1 = Suc (pos g)"
    using update_satisfaction_pos [of "agents sim ! a" "agents sim ! p" g] u1 by simp
  moreover have "pos g2 = Suc (pos g1)"
    using update_satisfaction_pos [of "?as1 ! p" "?as1 ! a" g1] u2 by simp
  moreover have "pos g3 = Suc (pos g2)"
    using random_snd [of g2] r by simp
  ultimately show ?case using Cons.IH [OF rest] by simp
qed

subsection \<open>Breaking a relationship\<close>

lemma dict_del_Inr:
  "dict_del k d = Inr d' \<Longrightarrow> k \<in> fst ` set d \<and> d' = AList.delete k d"
  by (auto simp: dict_del_def split: if_splits)

lemma set_delete: "set (AList.delete k al) = {e \<in> set al. fst e \<noteq> k}"
  by (induction al) auto

lemma length_delete:
  "distinct (map fst al) \<Longrightarrow> k \<in> fst ` set al \<Longrightarrow> Suc (length (AList.delete k al)) = length al"
proof (induction al)
  case Nil
  then show ?case by simp
next
  case (Cons e al)
  show ?case
  proof (cases "fst e = k")
    case True
    with Cons.prems(1) have "k \<notin> fst ` set al" by auto
    then have "AList.delete k al = al" by (simp add: delete_id)
    with True show ?thesis by (cases e) auto
  next
    case False
    with Cons show ?thesis by (cases e) auto
  qed
qed

lemma break_relationship_result:
  assumes "break_relationship sim a p = Inr sim'"
  shows "agent_id (agents sim ! a) \<in> fst ` set (relationships (environment sim))"
    and "agent_id (agents sim ! p)
           \<in> fst ` set (AList.delete (agent_id (agents sim ! a)) (relationships (environment sim)))"
    and "relationships (environment sim') =
           AList.delete (agent_id (agents sim ! p))
             (AList.delete (agent_id (agents sim ! a)) (relationships (environment sim)))"
    and "map agent_id (agents sim') = map agent_id (agents sim)"
    and "map relationship_status (agents sim') =
           (map relationship_status (agents sim))[a := ''single'', p := ''single'']"
    and "map relationship_satisfaction (agents sim') =
           (map relationship_satisfaction (agents sim))[a := 1, p := 1]"
    and "map personality (agents sim') = map personality (agents sim)"
    and "map interests (agents sim') = map interests (agents sim)"
    and "stats sim' = stats sim"
proof -
  from assms obtain rel1 rel2 where
    d1: "dict_del (agent_id (agents sim ! a)) (relationships (environment sim)) = Inr rel1"
    and d2: "dict_del (agent_id (agents sim ! p)) rel1 = Inr rel2"
    by (auto simp: break_relationship_def Let_def split: sum.splits)
  note r1 = dict_del_Inr [OF d1] and r2 = dict_del_Inr [OF d2]
  from r1 show "agent_id (agents sim ! a) \<in> fst ` set (relationships (environment sim))" by simp
  from r1 r2 show "agent_id (agents sim ! p)
           \<in> fst ` set (AList.delete (agent_id (agents sim ! a)) (relationships (environment sim)))"
    by simp
  from assms d1 d2 r1 r2 show "relationships (environment sim') =
           AList.delete (agent_id (agents sim ! p))
             (AList.delete (agent_id (agents sim ! a)) (relationships (environment sim)))"
    by (auto simp: break_relationship_def Let_def)
  define as1 where "as1 = (agents sim)[a := (agents sim ! a)\<lparr>relationship_status := ''single''\<rparr>]"
  define as2 where "as2 = as1[p := (as1 ! p)\<lparr>relationship_status := ''single''\<rparr>]"
  define as3 where "as3 = as2[a := (as2 ! a)\<lparr>relationship_satisfaction := 1\<rparr>]"
  define as4 where "as4 = as3[p := (as3 ! p)\<lparr>relationship_satisfaction := 1\<rparr>]"
  have sim': "sim' = sim\<lparr>environment := (environment sim)\<lparr>relationships := rel2\<rparr>, agents := as4\<rparr>"
    using assms d1 d2
    by (simp add: break_relationship_def Let_def as1_def as2_def as3_def as4_def)
  have ag: "agents sim' = as4" and "stats sim' = stats sim" by (simp_all add: sim')
  then show "stats sim' = stats sim" by simp
  have same: "map f as4 = map f (agents sim)"
    if "\<And>x v. f (x\<lparr>relationship_status := v\<rparr>) = f x"
      and "\<And>x v. f (x\<lparr>relationship_satisfaction := v\<rparr>) = f x" for f :: "DatingAgent \<Rightarrow> 'b"
  proof -
    have "map f as4 = map f as3" unfolding as4_def by (simp add: map_update_same that)
    also have "\<dots> = map f as2" unfolding as3_def by (simp add: map_update_same that)
    also have "\<dots> = map f as1" unfolding as2_def by (simp add: map_update_same that)
    also have "\<dots> = map f (agents sim)" unfolding as1_def by (simp add: map_update_same that)
    finally show ?thesis .
  qed
  show "map agent_id (agents sim') = map agent_id (agents sim)"
    unfolding ag by (rule same) simp_all
  show "map personality (agents sim') = map personality (agents sim)"
    unfolding ag by (rule same) simp_all
  show "map interests (agents sim') = map interests (agents sim)"
    unfolding ag by (rule same) simp_all
  have "map relationship_status as4 = map relationship_status as3"
    unfolding as4_def by (simp add: map_update_same)
  also have "\<dots> = map relationship_status as2"
    unfolding as3_def by (simp add: map_update_same)
  also have "\<dots> = (map relationship_status as1)[p := ''single'']"
    unfolding as2_def by (simp add: map_update)
  also have "map relationship_status as1 = (map relationship_status (agents sim))[a := ''single'']"
    unfolding as1_def by (simp add: map_update)
  finally show "map relationship_status (agents sim') =
           (map relationship_status (agents sim))[a := ''single'', p := ''single'']"
    unfolding ag .
  have "map relationship_satisfaction as4 = (map relationship_satisfaction as3)[p := 1]"
    unfolding as4_def by (simp add: map_update)
  also have "map relationship_satisfaction as3 = (map relationship_satisfaction as2)[a := 1]"
    unfolding as3_def by (simp add: map_update)
  also have "map relationship_satisfaction as2 = map relationship_satisfaction as1"
    unfolding as2_def by (simp add: map_update_same)
  also have "\<dots> = map relationship_satisfaction (agents sim)"
    unfolding as1_def by (simp add: map_update_same)
  finally show "map relationship_satisfaction (agents sim') =
           (map relationship_satisfaction (agents sim))[a := 1, p := 1]"
    unfolding ag .
qed


lemma break_relationship_wf:
  assumes wf: "wf_sim sim"
    and a: "a < length (agents sim)" and p: "p < length (agents sim)"
    and only: "\<forall>v. (agent_id (agents sim ! a), v) \<in> set (relationships (environment sim))
                 \<longrightarrow> v = agent_id (agents sim ! p)"
    and br: "break_relationship sim a p = Inr sim'"
  shows "wf_sim sim'"
proof -
  let ?rel = "relationships (environment sim)"
  let ?ids = "map agent_id (agents sim)"
  let ?sts = "map relationship_status (agents sim)"
  let ?a = "agent_id (agents sim ! a)" and ?b = "agent_id (agents sim ! p)"
  let ?rel' = "AList.delete ?b (AList.delete ?a ?rel)"
  note res = break_relationship_result [OF br]
  from wf have d_ids: "distinct ?ids" and d_keys: "distinct (map fst ?rel)"
    and sym: "\<forall>(x, y) \<in> set ?rel. (y, x) \<in> set ?rel \<and> x \<noteq> y"
    and ev: "even (length ?rel)"
    and st: "\<forall>j < length ?ids. ?sts ! j = ''in_relationship'' \<longleftrightarrow> ?ids ! j \<in> fst ` set ?rel"
    by (simp_all add: wf_sim_def Let_def)
  have uniq: "v = w" if "(k, v) \<in> set ?rel" "(k, w) \<in> set ?rel" for k v w
    using d_keys that by (metis map_of_eq_Some_iff option.inject)
  from res(1) obtain v where "(?a, v) \<in> set ?rel" by auto
  with only have ab: "(?a, ?b) \<in> set ?rel" by auto
  with sym have ba: "(?b, ?a) \<in> set ?rel" and ne: "?a \<noteq> ?b" by auto
  have set': "set ?rel' = {e \<in> set ?rel. fst e \<noteq> ?a \<and> fst e \<noteq> ?b}"
    by (auto simp: set_delete)
  have keys': "fst ` set ?rel' = fst ` set ?rel - {?a, ?b}"
    unfolding set' by auto
  have len: "Suc (Suc (length ?rel')) = length ?rel"
    using length_delete [OF d_keys res(1)]
      length_delete [OF distinct_delete [OF d_keys] res(2)] by simp
  have idx: "?ids ! j = ?a \<longleftrightarrow> j = a" "?ids ! j = ?b \<longleftrightarrow> j = p" if "j < length ?ids" for j
    using d_ids a p that by (simp_all add: nth_eq_iff_index_eq [symmetric])
  show ?thesis
    unfolding wf_sim_def Let_def res(3) res(4) res(5)
  proof (intro conjI allI impI)
    show "distinct ?ids" by (rule d_ids)
    show "distinct (map fst ?rel')" by (intro distinct_delete d_keys)
    show "\<forall>(x, y) \<in> set ?rel'. (y, x) \<in> set ?rel' \<and> x \<noteq> y"
    proof (clarify, intro conjI)
      fix x y assume xy: "(x, y) \<in> set ?rel'"
      then have xy0: "(x, y) \<in> set ?rel" and xa: "x \<noteq> ?a" and xb: "x \<noteq> ?b"
        by (simp_all add: set')
      from sym xy0 have yx0: "(y, x) \<in> set ?rel" and "x \<noteq> y" by auto
      then show "x \<noteq> y" by simp
      have "y \<noteq> ?a" using uniq [OF yx0, of ?b] ab xb by auto
      moreover have "y \<noteq> ?b" using uniq [OF yx0, of ?a] ba xa by auto
      ultimately show "(y, x) \<in> set ?rel'" using yx0 by (simp add: set')
    qed
    show "even (length ?rel')" using ev len by (metis even_Suc)
  next
    fix j assume j: "j < length ?ids"
    show "(?sts[a := ''single'', p := ''single''] ! j = ''in_relationship'')
          = (?ids ! j \<in> fst ` set ?rel')"
    proof (cases "j = a \<or> j = p")
      case True
      then have "?sts[a := ''single'', p := ''single''] ! j = ''single''"
        using a p by (auto simp: nth_list_update)
      moreover have "?ids ! j \<notin> fst ` set ?rel'"
        using True a p unfolding keys' by auto
      ultimately show ?thesis by simp
    next
      case False
      then have "?sts[a := ''single'', p := ''single''] ! j = ?sts ! j" by simp
      moreover have "?ids ! j \<noteq> ?a" "?ids ! j \<noteq> ?b" using idx [OF j] False by simp_all
      ultimately show ?thesis using st j unfolding keys' by auto
    qed
  qed
qed

lemma process_breakups_wf:
  assumes "wf_sim sim"
    and "\<forall>e \<in> set bs. fst e < length (agents sim) \<and> snd e < length (agents sim)
           \<and> (\<forall>v. (agent_id (agents sim ! fst e), v) \<in> set (relationships (environment sim))
                  \<longrightarrow> v = agent_id (agents sim ! snd e))"
    and "process_breakups bs sim = Inr sim'"
  shows "wf_sim sim'"
  using assms
proof (induction bs arbitrary: sim)
  case Nil
  then show ?case by simp
next
  case (Cons e bs)
  obtain a p where e: "e = (a, p)" by (cases e)
  from Cons.prems(3) obtain sim1 where br: "break_relationship sim a p = Inr sim1"
    and rest: "process_breakups bs sim1 = Inr sim'"
    by (auto simp: e split: sum.splits)
  from Cons.prems(2) have a: "a < length (agents sim)" and p: "p < length (agents sim)"
    and only: "\<forall>v. (agent_id (agents sim ! a), v) \<in> set (relationships (environment sim))
                 \<longrightarrow> v = agent_id (agents sim ! p)"
    by (simp_all add: e)
  have wf1: "wf_sim sim1" by (rule break_relationship_wf [OF Cons.prems(1) a p only br])
  note res = break_relationship_result [OF br]
  have len: "length (agents sim1) = length (agents sim)" using res(4) by (metis length_map)
  have idn: "agent_id (agents sim1 ! j) = agent_id (agents sim ! j)"
    if "j < length (agents sim)" for j
    using that res(4) by (metis length_map nth_map)
  have sub: "set (relationships (environment sim1)) \<subseteq> set (relationships (environment sim))"
    unfolding res(3) by (auto simp: set_delete)
  have "\<forall>e \<in> set bs. fst e < length (agents sim1) \<and> snd e < length (agents sim1)
           \<and> (\<forall>v. (agent_id (agents sim1 ! fst e), v) \<in> set (relationships (environment sim1))
                  \<longrightarrow> v = agent_id (agents sim1 ! snd e))"
  proof
    fix e' assume "e' \<in> set bs"
    with Cons.prems(2) have h: "fst e' < length (agents sim)" "snd e' < length (agents sim)"
      "\<forall>v. (agent_id (agents sim ! fst e'), v) \<in> set (relationships (environment sim))
                  \<longrightarrow> v = agent_id (agents sim ! snd e')"
      by simp_all
    show "fst e' < length (agents sim1) \<and> snd e' < length (agents sim1)
           \<and> (\<forall>v. (agent_id (agents sim1 ! fst e'), v) \<in> set (relationships (environment sim1))
                  \<longrightarrow> v = agent_id (agents sim1 ! snd e'))"
      using h sub by (auto simp: len idn)
  qed
  from Cons.IH [OF wf1 this rest] show ?case .
qed

lemma process_breakups_frame:
  assumes "process_breakups bs sim = Inr sim'"
  shows "map agent_id (agents sim') = map agent_id (agents sim)
     \<and> map personality (agents sim') = map personality (agents sim)
     \<and> map interests (agents sim') = map interests (agents sim)
     \<and> stats sim' = stats sim
     \<and> set (map relationship_satisfaction (agents sim'))
          \<subseteq> insert 1 (set (map relationship_satisfaction (agents sim)))
     \<and> (\<forall>j < length (agents sim). relationship_status (agents sim' ! j) = ''in_relationship''
           \<longrightarrow> relationship_status (agents sim ! j) = ''in_relationship'')"
  using assms
proof (induction bs arbitrary: sim)
  case Nil
  then show ?case by auto
next
  case (Cons e bs)
  obtain a p where e: "e = (a, p)" by (cases e)
  from Cons.prems obtain sim1 where br: "break_relationship sim a p = Inr sim1"
    and rest: "process_breakups bs sim1 = Inr sim'"
    by (auto simp: e split: sum.splits)
  note res = break_relationship_result [OF br]
  note ih = Cons.IH [OF rest]
  have len: "length (agents sim1) = length (agents sim)" using res(4) by (metis length_map)
  have sat1: "set (map relationship_satisfaction (agents sim1))
          \<subseteq> insert 1 (set (map relationship_satisfaction (agents sim)))"
  proof -
    let ?xs = "map relationship_satisfaction (agents sim)"
    have "set (?xs[a := 1, p := 1]) \<subseteq> insert 1 (set (?xs[a := 1]))"
      by (rule set_update_subset_insert)
    also have "\<dots> \<subseteq> insert 1 (insert 1 (set ?xs))"
      by (intro insert_mono set_update_subset_insert)
    finally show ?thesis unfolding res(6) by simp
  qed
  have st1: "relationship_status (agents sim ! j) = ''in_relationship''"
    if "j < length (agents sim)" "relationship_status (agents sim1 ! j) = ''in_relationship''" for j
  proof -
    have "map relationship_status (agents sim1) ! j = ''in_relationship''"
      using that len by simp
    then have "(map relationship_status (agents sim))[a := ''single'', p := ''single''] ! j
                 = ''in_relationship''"
      by (simp only: res(5))
    then have "map relationship_status (agents sim) ! j = ''in_relationship''"
      using that(1) by (cases "j = p"; cases "j = a") simp_all
    then show ?thesis using that(1) by simp
  qed
  from ih res sat1 st1 len show ?case by auto
qed


subsection \<open>One tick and many\<close>

lemma check_relationships_wf:
  assumes wf: "wf_sim sim" and c: "check_relationships sim g = Inr (sim', g')"
  shows "wf_sim sim'"
proof -
  let ?rel = "relationships (environment sim)"
  from c obtain sim1 bs where sw: "sweep ?rel sim [] g = Inr (sim1, bs, g')"
    and pb: "process_breakups bs sim1 = Inr sim'"
    by (auto simp: check_relationships_def split: sum.splits)
  note fr = sweep_frame [OF sw]
  have wf1: "wf_sim sim1" using wf wf_sim_cong [of sim1 sim] fr by simp
  from wf have d_keys: "distinct (map fst ?rel)" by (simp add: wf_sim_def Let_def)
  have len: "length (agents sim1) = length (agents sim)" using fr by (metis length_map)
  have idn: "agent_id (agents sim1 ! j) = agent_id (agents sim ! j)"
    if "j < length (agents sim)" for j
    using that fr by (metis length_map nth_map)
  have "\<forall>e \<in> set bs. fst e < length (agents sim1) \<and> snd e < length (agents sim1)
           \<and> (\<forall>v. (agent_id (agents sim1 ! fst e), v) \<in> set (relationships (environment sim1))
                  \<longrightarrow> v = agent_id (agents sim1 ! snd e))"
  proof
    fix e assume "e \<in> set bs"
    with sweep_queue [OF sw] have h: "fst e < length (agents sim)" "snd e < length (agents sim)"
      "(agent_id (agents sim ! fst e), agent_id (agents sim ! snd e)) \<in> set ?rel"
      by auto
    have "v = agent_id (agents sim ! snd e)"
      if "(agent_id (agents sim ! fst e), v) \<in> set ?rel" for v
      using d_keys that h(3) by (metis map_of_eq_Some_iff option.inject)
    then show "fst e < length (agents sim1) \<and> snd e < length (agents sim1)
           \<and> (\<forall>v. (agent_id (agents sim1 ! fst e), v) \<in> set (relationships (environment sim1))
                  \<longrightarrow> v = agent_id (agents sim1 ! snd e))"
      using h fr by (simp add: len idn)
  qed
  from process_breakups_wf [OF wf1 this pb] show ?thesis .
qed


lemma check_relationships_bounded:
  assumes b: "bounded_sim sim" and c: "check_relationships sim g = Inr (sim', g')"
  shows "bounded_sim sim'"
proof -
  from c obtain sim1 bs where sw: "sweep (relationships (environment sim)) sim [] g = Inr (sim1, bs, g')"
    and pb: "process_breakups bs sim1 = Inr sim'"
    by (auto simp: check_relationships_def split: sum.splits)
  note fr = sweep_frame [OF sw] and pf = process_breakups_frame [OF pb]
  from b have s0: "\<forall>v \<in> set (map relationship_satisfaction (agents sim)). 0 \<le> v \<and> v \<le> 1"
    and p0: "\<forall>p \<in> set (map personality (agents sim)). \<forall>t. 0 \<le> p t \<and> p t \<le> 1"
    unfolding bounded_sim_def by blast+
  note s1 = sweep_satisfaction [OF sw s0]
  have s2: "\<forall>v \<in> set (map relationship_satisfaction (agents sim')). 0 \<le> v \<and> v \<le> 1"
  proof
    fix v assume "v \<in> set (map relationship_satisfaction (agents sim'))"
    with pf have "v = 1 \<or> v \<in> set (map relationship_satisfaction (agents sim1))" by blast
    with s1 show "0 \<le> v \<and> v \<le> 1" by auto
  qed
  have "map personality (agents sim') = map personality (agents sim)" using fr pf by simp
  with p0 have p2: "\<forall>p \<in> set (map personality (agents sim')). \<forall>t. 0 \<le> p t \<and> p t \<le> 1"
    by (simp only:)
  from s2 p2 show ?thesis unfolding bounded_sim_def by blast
qed

lemma step_phases:
  assumes "step sim g = Inr (sim', g')"
  obtains sim1 acts g1 sim2 g2 sim3 where
    "collect_actions [0 ..< length (agents sim)] sim [] g = (sim1, acts, g1)"
    "process_actions acts sim1 g1 = Inr (sim2, g2)"
    "check_relationships sim2 g2 = Inr (sim3, g')"
    "sim' = sim3\<lparr>environment := update (environment sim3)\<rparr>"
  using assms by (auto simp: step_def split: prod.splits sum.splits)

lemma step_wf:
  assumes wf: "wf_sim sim" and st: "step sim g = Inr (sim', g')"
  shows "wf_sim sim'"
proof -
  from st obtain sim1 acts g1 sim2 g2 sim3 where
    c: "collect_actions [0 ..< length (agents sim)] sim [] g = (sim1, acts, g1)"
    and p: "process_actions acts sim1 g1 = Inr (sim2, g2)"
    and k: "check_relationships sim2 g2 = Inr (sim3, g')"
    and sim': "sim' = sim3\<lparr>environment := update (environment sim3)\<rparr>"
    by (rule step_phases)
  note cf = collect_actions_frame [OF c]
  have wf1: "wf_sim sim1" using wf wf_sim_cong [of sim1 sim] cf by simp
  have len: "length (agents sim1) = length (agents sim)" using cf by (metis length_map)
  have "\<forall>e \<in> set acts. fst e < length (agents sim1)"
    using collect_actions_refs [OF c] len by auto
  from process_actions_wf [OF wf1 this p] have wf2: "wf_sim sim2" .
  from check_relationships_wf [OF wf2 k] have wf3: "wf_sim sim3" .
  have "wf_sim sim' = wf_sim sim3"
    unfolding sim' by (rule wf_sim_cong) (simp_all add: update_def)
  with wf3 show ?thesis by simp
qed

lemma step_bounded:
  assumes b: "bounded_sim sim" and st: "step sim g = Inr (sim', g')"
  shows "bounded_sim sim'"
proof -
  from st obtain sim1 acts g1 sim2 g2 sim3 where
    c: "collect_actions [0 ..< length (agents sim)] sim [] g = (sim1, acts, g1)"
    and p: "process_actions acts sim1 g1 = Inr (sim2, g2)"
    and k: "check_relationships sim2 g2 = Inr (sim3, g')"
    and sim': "sim' = sim3\<lparr>environment := update (environment sim3)\<rparr>"
    by (rule step_phases)
  note cf = collect_actions_frame [OF c] and pf = process_actions_frame [OF p]
  have "bounded_sim sim1" using b bounded_sim_cong [of sim1 sim] cf by simp
  then have "bounded_sim sim2" using bounded_sim_cong [of sim2 sim1] pf by simp
  from check_relationships_bounded [OF this k] have "bounded_sim sim3" .
  moreover have "bounded_sim sim' = bounded_sim sim3"
    unfolding sim' by (rule bounded_sim_cong) simp_all
  ultimately show ?thesis by simp
qed

lemma steps_wf:
  "wf_sim sim \<Longrightarrow> steps n sim g = Inr (sim', g') \<Longrightarrow> wf_sim sim'"
proof (induction n arbitrary: sim g)
  case 0
  then show ?case by simp
next
  case (Suc n)
  from Suc.prems(2) obtain sim1 g1 where s: "step sim g = Inr (sim1, g1)"
    and r: "steps n sim1 g1 = Inr (sim', g')"
    by (auto split: sum.splits)
  from Suc.IH [OF step_wf [OF Suc.prems(1) s] r] show ?case .
qed

lemma steps_bounded:
  "bounded_sim sim \<Longrightarrow> steps n sim g = Inr (sim', g') \<Longrightarrow> bounded_sim sim'"
proof (induction n arbitrary: sim g)
  case 0
  then show ?case by simp
next
  case (Suc n)
  from Suc.prems(2) obtain sim1 g1 where s: "step sim g = Inr (sim1, g1)"
    and r: "steps n sim1 g1 = Inr (sim', g')"
    by (auto split: sum.splits)
  from Suc.IH [OF step_bounded [OF Suc.prems(1) s] r] show ?case .
qed


section \<open>Construction\<close>

lemma digit_inj: "a < 10 \<Longrightarrow> b < 10 \<Longrightarrow> digit a = digit b \<Longrightarrow> a = b"
proof -
  assume a: "a < 10" and b: "b < 10" and e: "digit a = digit b"
  have d: "distinct ''0123456789''" by simp
  from e have "''0123456789'' ! a = ''0123456789'' ! b" using a b by (simp add: digit_def)
  with nth_eq_iff_index_eq [OF d, of a b] a b show ?thesis by simp
qed

lemma str_nonempty: "str n \<noteq> []"
  by (subst str.simps) simp

lemma str_inj: "str n = str m \<Longrightarrow> n = m"
proof (induction n arbitrary: m rule: str.induct)
  case (1 n)
  show ?case
  proof (cases "n < 10")
    case n: True
    show ?thesis
    proof (cases "m < 10")
      case True
      with n "1.prems" have "digit n = digit m" by (simp add: str.simps)
      with n True show ?thesis by (rule digit_inj)
    next
      case False
      with n "1.prems" have "[digit n] = str (m div 10) @ [digit (m mod 10)]"
        by (simp add: str.simps [of n] str.simps [of m])
      then show ?thesis using str_nonempty [of "m div 10"] by simp
    qed
  next
    case n: False
    show ?thesis
    proof (cases "m < 10")
      case True
      with n "1.prems" have "str (n div 10) @ [digit (n mod 10)] = [digit m]"
        by (simp add: str.simps [of n] str.simps [of m])
      then show ?thesis using str_nonempty [of "n div 10"] by simp
    next
      case False
      with n "1.prems" have "str (n div 10) @ [digit (n mod 10)] = str (m div 10) @ [digit (m mod 10)]"
        by (simp add: str.simps [of n] str.simps [of m])
      then have e1: "str (n div 10) = str (m div 10)" and e2: "digit (n mod 10) = digit (m mod 10)"
        by simp_all
      from "1.IH" [OF n e1] have "n div 10 = m div 10" .
      moreover from e2 have "n mod 10 = m mod 10" by (intro digit_inj) simp_all
      ultimately show ?thesis by (metis mult_div_mod_eq)
    qed
  qed
qed

lemma vacancy:
  assumes j: "j < m" and m: "m \<le> length pool" and d: "distinct (take m pool)"
  shows "distinct (take (m - 1) (pool[j := pool ! (m - 1)]))"
    and "set (take (m - 1) (pool[j := pool ! (m - 1)])) \<subseteq> set (take m pool) - {pool ! j}"
proof -
  let ?ys = "take (m - 1) (pool[j := pool ! (m - 1)])"
  have inj: "pool ! a = pool ! b \<longleftrightarrow> a = b" if "a < m" "b < m" for a b
    using nth_eq_iff_index_eq [OF d, of a b] that m by simp
  have len: "length ?ys = m - 1" using m by simp
  have nth: "?ys ! i = (if i = j then pool ! (m - 1) else pool ! i)" if "i < m - 1" for i
    using that m by (simp add: nth_list_update)
  show "distinct ?ys"
    unfolding distinct_conv_nth len
  proof (intro allI impI)
    fix a b assume a: "a < m - 1" and b: "b < m - 1" and ab: "a \<noteq> b"
    have am: "a < m" "a \<noteq> m - 1" and bm: "b < m" "b \<noteq> m - 1" and m1: "m - 1 < m"
      using a b by simp_all
    show "?ys ! a \<noteq> ?ys ! b"
      unfolding nth [OF a] nth [OF b]
      using ab inj [OF am(1) bm(1)] inj [OF m1 bm(1)] inj [OF am(1) m1] am(2) bm(2)
      by (simp del: One_nat_def)
  qed
  show "set ?ys \<subseteq> set (take m pool) - {pool ! j}"
  proof
    fix x assume "x \<in> set ?ys"
    then obtain i where i: "i < m - 1" and x: "x = ?ys ! i"
      by (metis in_set_conv_nth len)
    define i' where "i' = (if i = j then m - 1 else i)"
    have x': "x = pool ! i'" and i': "i' < m" and ij: "i' \<noteq> j"
      using i j x nth [OF i] by (auto simp: i'_def)
    have "pool ! i' \<in> set (take m pool)"
      using i' m by (metis in_set_conv_nth length_take min.absorb2 nth_take)
    moreover have "pool ! i' \<noteq> pool ! j" using inj [OF i' j] ij by simp
    ultimately show "x \<in> set (take m pool) - {pool ! j}" using x' by simp
  qed
qed

lemma sample_loop_props:
  "k \<le> m \<Longrightarrow> m \<le> length pool \<Longrightarrow> distinct (take m pool) \<Longrightarrow>
     length (fst (sample_loop k m pool g)) = k
     \<and> distinct (fst (sample_loop k m pool g))
     \<and> set (fst (sample_loop k m pool g)) \<subseteq> set (take m pool)"
proof (induction k arbitrary: m pool g)
  case 0
  then show ?case by simp
next
  case (Suc k)
  obtain j g1 where rb: "randbelow m g = (j, g1)" by (cases "randbelow m g")
  from Suc.prems(1) have m0: "0 < m" by simp
  with randbelow_lt [of m g] rb have j: "j < m" by simp
  let ?pool' = "pool[j := pool ! (m - 1)]"
  obtain rest g2 where sl: "sample_loop k (m - 1) ?pool' g1 = (rest, g2)"
    by (cases "sample_loop k (m - 1) ?pool' g1")
  note v = vacancy [OF j Suc.prems(2) Suc.prems(3)]
  have "k \<le> m - 1" "m - 1 \<le> length ?pool'" using Suc.prems by simp_all
  from Suc.IH [OF this v(1), of g1] sl
  have ih: "length rest = k" "distinct rest" "set rest \<subseteq> set (take (m - 1) ?pool')" by simp_all
  have mem: "pool ! j \<in> set (take m pool)"
    using j Suc.prems(2) by (metis in_set_conv_nth length_take min.absorb2 nth_take)
  have res: "fst (sample_loop (Suc k) m pool g) = pool ! j # rest"
    using sl by (simp add: rb)
  show ?case unfolding res using ih v(2) mem by auto
qed

lemma DatingAgent_init_props:
  "\<exists>a g'. DatingAgent_init aid nm g = Inr (a, g')
     \<and> agent_id a = aid \<and> name a = nm \<and> memory a = []
     \<and> relationship_status a = ''single'' \<and> emotional_state a = 0.5
     \<and> relationship_satisfaction a = 1
     \<and> (\<forall>t. 0 \<le> personality a t \<and> personality a t \<le> 1)
     \<and> distinct (interests a) \<and> 2 \<le> length (interests a) \<and> length (interests a) \<le> 5"
proof -
  obtain p1 g1 where r1: "random g = (p1, g1)" by (cases "random g")
  obtain p2 g2 where r2: "random g1 = (p2, g2)" by (cases "random g1")
  obtain p3 g3 where r3: "random g2 = (p3, g3)" by (cases "random g2")
  obtain j g4 where rb: "randbelow 4 g3 = (j, g4)" by (cases "randbelow 4 g3")
  from randbelow_lt [of 4 g3] rb have j: "j < 4" by simp
  have ri: "randint 2 5 g3 = Inr (2 + int j, g4)" by (simp add: randint_def rb)
  obtain chosen g5 where sl: "sample_loop (2 + j) 8 Interest_members g4 = (chosen, g5)"
    by (cases "sample_loop (2 + j) 8 Interest_members g4")
  have n8: "length Interest_members = 8" and dI: "distinct Interest_members"
    by (simp_all add: Interest_members_def)
  have sa: "sample Interest_members (2 + int j) g4 = Inr (chosen, g5)"
    using j sl by (simp add: sample_def n8 nat_add_distrib)
  have "2 + j \<le> 8" using j by simp
  from sample_loop_props [OF this, of Interest_members g4] sl n8 dI
  have ch: "length chosen = 2 + j" "distinct chosen" by simp_all
  have pr: "0 \<le> p1 \<and> p1 \<le> 1" "0 \<le> p2 \<and> p2 \<le> 1" "0 \<le> p3 \<and> p3 \<le> 1"
    using random_range [of g] random_range [of g1] random_range [of g2] r1 r2 r3 by simp_all
  have pers: "0 \<le> (case t of OPENNESS \<Rightarrow> p1 | EXTRAVERSION \<Rightarrow> p2 | AGREEABLENESS \<Rightarrow> p3)
          \<and> (case t of OPENNESS \<Rightarrow> p1 | EXTRAVERSION \<Rightarrow> p2 | AGREEABLENESS \<Rightarrow> p3) \<le> 1" for t
    using pr by (cases t) simp_all
  show ?thesis
    using ch j pers by (simp add: DatingAgent_init_def r1 r2 r3 ri sa)
qed

lemma make_agents_props:
  "\<exists>as g'. make_agents is nms g = Inr (as, g')
     \<and> map agent_id as = map str is
     \<and> (\<forall>a \<in> set as. relationship_status a = ''single'' \<and> emotional_state a = 0.5
            \<and> relationship_satisfaction a = 1
            \<and> (\<forall>t. 0 \<le> personality a t \<and> personality a t \<le> 1)
            \<and> distinct (interests a) \<and> 2 \<le> length (interests a) \<and> length (interests a) \<le> 5)"
proof (induction "is" arbitrary: g)
  case Nil
  then show ?case by simp
next
  case (Cons i "is")
  from DatingAgent_init_props [of "str i" "nms ! (i mod length nms)" g]
  obtain a g1 where a: "DatingAgent_init (str i) (nms ! (i mod length nms)) g = Inr (a, g1)"
    and pa: "agent_id a = str i" "relationship_status a = ''single''" "emotional_state a = 0.5"
      "relationship_satisfaction a = 1" "\<forall>t. 0 \<le> personality a t \<and> personality a t \<le> 1"
      "distinct (interests a)" "2 \<le> length (interests a)" "length (interests a) \<le> 5"
    by blast
  from Cons.IH [of g1] obtain as g2 where as: "make_agents is nms g1 = Inr (as, g2)"
    and pas: "map agent_id as = map str is"
      "\<forall>a \<in> set as. relationship_status a = ''single'' \<and> emotional_state a = 0.5
            \<and> relationship_satisfaction a = 1
            \<and> (\<forall>t. 0 \<le> personality a t \<and> personality a t \<le> 1)
            \<and> distinct (interests a) \<and> 2 \<le> length (interests a) \<and> length (interests a) \<le> 5"
    by blast
  have "make_agents (i # is) nms g = Inr (a # as, g2)" by (simp add: a as)
  with pa pas show ?case by simp
qed

lemma DatingSimulation_init_props:
  "\<exists>sim g'. DatingSimulation_init num_agents g = Inr (sim, g')
     \<and> map agent_id (agents sim) = map str [0 ..< nat num_agents]
     \<and> environment sim = \<lparr>current_time = 0, relationships = [], messages = [], dates = []\<rparr>
     \<and> stats sim = \<lparr>messages_sent = 0, dates_arranged = 0, relationships_formed = 0\<rparr>
     \<and> (\<forall>a \<in> set (agents sim). relationship_status a = ''single'' \<and> emotional_state a = 0.5
            \<and> relationship_satisfaction a = 1
            \<and> (\<forall>t. 0 \<le> personality a t \<and> personality a t \<le> 1)
            \<and> distinct (interests a) \<and> 2 \<le> length (interests a) \<and> length (interests a) \<le> 5)"
proof -
  obtain nms g1 where sh: "shuffle name_pool g = (nms, g1)" by (cases "shuffle name_pool g")
  from make_agents_props [of "[0 ..< nat num_agents]" nms g1]
  obtain as g2 where as: "make_agents [0 ..< nat num_agents] nms g1 = Inr (as, g2)"
    and pas: "map agent_id as = map str [0 ..< nat num_agents]"
      "\<forall>a \<in> set as. relationship_status a = ''single'' \<and> emotional_state a = 0.5
            \<and> relationship_satisfaction a = 1
            \<and> (\<forall>t. 0 \<le> personality a t \<and> personality a t \<le> 1)
            \<and> distinct (interests a) \<and> 2 \<le> length (interests a) \<and> length (interests a) \<le> 5"
    by blast
  show ?thesis using pas by (simp add: DatingSimulation_init_def sh as)
qed

lemma DatingSimulation_init_wf:
  assumes "DatingSimulation_init num_agents g = Inr (sim, g')"
  shows "wf_sim sim" and "bounded_sim sim"
proof -
  from DatingSimulation_init_props [of num_agents g] assms
  have ids: "map agent_id (agents sim) = map str [0 ..< nat num_agents]"
    and rel: "relationships (environment sim) = []"
    and ag: "\<forall>a \<in> set (agents sim). relationship_status a = ''single''
            \<and> relationship_satisfaction a = 1
            \<and> (\<forall>t. 0 \<le> personality a t \<and> personality a t \<le> 1)"
    by auto
  have "distinct (map str [0 ..< nat num_agents])"
    by (simp add: distinct_map inj_on_def str_inj)
  moreover have "map relationship_status (agents sim) ! i \<noteq> ''in_relationship''"
    if "i < length (agents sim)" for i
    using ag that by (simp add: nth_mem)
  moreover have "length (agents sim) = nat num_agents"
    using ids by (metis length_map length_upt minus_nat.diff_0)
  ultimately show "wf_sim sim"
    using ids rel by (simp add: wf_sim_def Let_def)
  from ag show "bounded_sim sim" by (auto simp: bounded_sim_def)
qed


section \<open>Compatibility\<close>

lemma calculate_compatibility_unfold:
  "calculate_compatibility a b =
     (1 - (\<bar>personality a OPENNESS - personality b OPENNESS\<bar>
           + \<bar>personality a EXTRAVERSION - personality b EXTRAVERSION\<bar>
           + \<bar>personality a AGREEABLENESS - personality b AGREEABLENESS\<bar>) / 3) * 0.5
     + (real (card (set (interests a) \<inter> set (interests b))) / 5) * 0.5"
  by (simp add: calculate_compatibility_def PersonalityTrait_members_def Let_def)

lemma card_inter_le: "card (set xs \<inter> set ys) \<le> card (set xs)"
  by (simp add: card_mono)

text \<open>
  Claim C6.  \<^verbatim>\<open>calculate_compatibility\<close> returns half of the personality similarity
  (one minus the mean absolute trait difference over the three traits) plus half of the
  number of shared interests divided by five; when all trait scores of both agents lie in
  \<open>[0, 1]\<close> and neither agent has more than five distinct interests, the result lies in
  \<open>[0, 1]\<close>.
\<close>

theorem calculate_compatibility_formula:
  "calculate_compatibility a b =
     0.5 * (1 - (\<bar>personality a OPENNESS - personality b OPENNESS\<bar>
                 + \<bar>personality a EXTRAVERSION - personality b EXTRAVERSION\<bar>
                 + \<bar>personality a AGREEABLENESS - personality b AGREEABLENESS\<bar>) / 3)
     + 0.5 * (real (card (set (interests a) \<inter> set (interests b))) / 5)
   \<and> ((\<forall>t. 0 \<le> personality a t \<and> personality a t \<le> 1)
        \<and> (\<forall>t. 0 \<le> personality b t \<and> personality b t \<le> 1)
        \<and> card (set (interests a)) \<le> 5 \<and> card (set (interests b)) \<le> 5
      \<longrightarrow> 0 \<le> calculate_compatibility a b \<and> calculate_compatibility a b \<le> 1)"
proof (intro conjI impI)
  show eq: "calculate_compatibility a b =
     0.5 * (1 - (\<bar>personality a OPENNESS - personality b OPENNESS\<bar>
                 + \<bar>personality a EXTRAVERSION - personality b EXTRAVERSION\<bar>
                 + \<bar>personality a AGREEABLENESS - personality b AGREEABLENESS\<bar>) / 3)
     + 0.5 * (real (card (set (interests a) \<inter> set (interests b))) / 5)"
    by (simp add: calculate_compatibility_unfold)
  assume h: "(\<forall>t. 0 \<le> personality a t \<and> personality a t \<le> 1)
        \<and> (\<forall>t. 0 \<le> personality b t \<and> personality b t \<le> 1)
        \<and> card (set (interests a)) \<le> 5 \<and> card (set (interests b)) \<le> 5"
  define D where "D = \<bar>personality a OPENNESS - personality b OPENNESS\<bar>
                 + \<bar>personality a EXTRAVERSION - personality b EXTRAVERSION\<bar>
                 + \<bar>personality a AGREEABLENESS - personality b AGREEABLENESS\<bar>"
  define S where "S = real (card (set (interests a) \<inter> set (interests b)))"
  have d: "\<bar>personality a t - personality b t\<bar> \<le> 1" for t
    using h by (smt (verit, best))
  have D: "0 \<le> D" "D \<le> 3"
    unfolding D_def using d [of OPENNESS] d [of EXTRAVERSION] d [of AGREEABLENESS] by linarith+
  have S: "0 \<le> S" "S \<le> 5"
    unfolding S_def using h card_inter_le [of "interests a" "interests b"] by simp_all
  have eq': "calculate_compatibility a b = 0.5 * (1 - D / 3) + 0.5 * (S / 5)"
    unfolding D_def S_def by (rule eq)
  show "0 \<le> calculate_compatibility a b"
    unfolding eq' using D S by (simp add: field_simps)
  show "calculate_compatibility a b \<le> 1"
    unfolding eq' using D S by (simp add: field_simps)
qed

text \<open>
  Claim C7.  \<^verbatim>\<open>calculate_compatibility\<close> is symmetric in its two agents.
\<close>

theorem calculate_compatibility_symmetric:
  "calculate_compatibility a b = calculate_compatibility b a"
  by (simp add: calculate_compatibility_unfold abs_minus_commute Int_commute)

lemma card_inter_code: "card (set xs \<inter> set ys) = length (remdups (filter (\<lambda>x. x \<in> set ys) xs))"
proof -
  have "set xs \<inter> set ys = set (filter (\<lambda>x. x \<in> set ys) xs)" by auto
  then show ?thesis by (simp only: card_set)
qed

theorem calculate_compatibility_formula_witness:
  "calculate_compatibility (demo_agent ''0'' (1/4) [SPORTS, MUSIC, ART]) (demo_agent ''1'' (3/4) [ART, SPORTS, TECH, FOOD]) = 9 / 20
   \<and> 0 \<le> calculate_compatibility (demo_agent ''0'' (1/4) [SPORTS, MUSIC, ART]) (demo_agent ''1'' (3/4) [ART, SPORTS, TECH, FOOD])
   \<and> calculate_compatibility (demo_agent ''0'' (1/4) [SPORTS, MUSIC, ART]) (demo_agent ''1'' (3/4) [ART, SPORTS, TECH, FOOD]) \<le> 1"
proof -
  let ?a = "demo_agent ''0'' (1/4) [SPORTS, MUSIC, ART]"
  let ?b = "demo_agent ''1'' (3/4) [ART, SPORTS, TECH, FOOD]"
  have pa: "\<forall>t. 0 \<le> personality ?a t \<and> personality ?a t \<le> 1"
    by (simp add: demo_agent_def split: PersonalityTrait.split)
  have pb: "\<forall>t. 0 \<le> personality ?b t \<and> personality ?b t \<le> 1"
    by (simp add: demo_agent_def split: PersonalityTrait.split)
  have ca: "card (set (interests ?a)) \<le> 5" by (simp add: demo_agent_def)
  have cb: "card (set (interests ?b)) \<le> 5" by (simp add: demo_agent_def)
  have v: "0.5 * (1 - (\<bar>personality ?a OPENNESS - personality ?b OPENNESS\<bar>
                 + \<bar>personality ?a EXTRAVERSION - personality ?b EXTRAVERSION\<bar>
                 + \<bar>personality ?a AGREEABLENESS - personality ?b AGREEABLENESS\<bar>) / 3)
     + 0.5 * (real (card (set (interests ?a) \<inter> set (interests ?b))) / 5) = 9 / 20"
    by (simp add: demo_agent_def card_inter_code)
  from calculate_compatibility_formula [of ?a ?b] pa pb ca cb v show ?thesis
    by simp
qed


section \<open>Two concrete runs\<close>

lemma shuffle_loop_snd: "snd (shuffle_loop i x g) = g\<lparr>pos := pos g + i\<rparr>"
  by (induction i arbitrary: x g) (simp_all add: randbelow_def next_raw_def split: prod.splits)

lemma length_shuffle_loop: "length (fst (shuffle_loop i x g)) = length x"
  by (induction i arbitrary: x g) (simp_all split: prod.splits)

lemma length_name_pool: "length name_pool = 24"
  by (simp add: name_pool_def)

lemma shuffle_name_pool:
  "shuffle name_pool g = (shuffled_names g, g\<lparr>pos := pos g + 23\<rparr>)"
proof -
  have "snd (shuffle name_pool g) = g\<lparr>pos := pos g + 23\<rparr>"
    unfolding shuffle_def shuffle_loop_snd by (simp add: length_name_pool)
  then show ?thesis by (metis prod.collapse shuffled_names_def)
qed

lemma length_shuffled_names: "length (shuffled_names g) = 24"
  by (simp add: shuffled_names_def shuffle_def length_shuffle_loop length_name_pool)

lemma sample_loop_unfold:
  "0 < k \<Longrightarrow> sample_loop k m pool g =
     (case randbelow m g of
        (j, g') \<Rightarrow>
          (case sample_loop (k - 1) (m - 1) (pool[j := pool ! (m - 1)]) g' of
             (result, g'') \<Rightarrow> (pool ! j # result, g'')))"
  by (cases k) simp_all

lemma steps_unfold:
  "0 < n \<Longrightarrow> steps n sim g =
     (case step sim g of Inl e \<Rightarrow> Inl e | Inr (sim', g') \<Rightarrow> steps (n - 1) sim' g')"
  by (cases n) (auto split: sum.splits)

lemma upt_0_2: "[0 ..< 2] = [0, Suc 0]"
  by (simp add: upt_rec)

lemmas eval_defs =
  random_def randbelow_def next_raw_def uniform_def randint_def choice_def sample_def
  sample_loop_unfold steps_unfold upt_0_2 length_shuffled_names
  DatingAgent_init_def Interest_members_def PersonalityTrait_members_def
  DatingSimulation_init_def shuffle_name_pool str.simps digit_def
  step_def act_def perceive_def get_state_def decide_def try_dating_action_def
  relationship_action_def is_valid_action_def single_agents_def process_action_def
  create_relationship_def calculate_compatibility_def card_inter_code
  check_relationships_def find_agent_def update_satisfaction_def
  break_relationship_def dict_del_def update_def Let_def seeded_def

lemmas eval_congs =
  sum.case_cong_weak prod.case_cong_weak let_weak_cong option.case_cong_weak
  list.case_cong_weak

lemma couple_init:
  "\<exists>sim g. DatingSimulation_init 2 (seeded couple_tape) = Inr (sim, g)
     \<and> map agent_id (agents sim) = [''0'', ''1'']
     \<and> map interests (agents sim) = [[SPORTS, READING, GAMING], [SPORTS, READING, GAMING]]
     \<and> map relationship_status (agents sim) = [''single'', ''single'']
     \<and> map relationship_satisfaction (agents sim) = [1, 1]
     \<and> pos g = 37"
  by (simp add: eval_defs couple_tape_def cong: eval_congs)

lemma couple_run:
  "\<exists>sim g. run 2 couple_tape 1 = Inr (sim, g)
     \<and> relationships (environment sim) = [(''0'', ''1''), (''1'', ''0'')]
     \<and> map relationship_status (agents sim) = [''in_relationship'', ''in_relationship'']
     \<and> map relationship_satisfaction (agents sim) = [0.86, 0.86]
     \<and> stats sim = \<lparr>messages_sent = 0, dates_arranged = 1, relationships_formed = 1\<rparr>
     \<and> current_time (environment sim) = 1
     \<and> pos g = 47"
  by (simp add: run_def eval_defs couple_tape_def cong: eval_congs)

lemma crash_run: "run 2 crash_tape 1 = Inl (KeyError ''1'')"
  by (simp add: run_def eval_defs crash_tape_def cong: eval_congs)

lemma run_split:
  assumes "run num_agents t n = r"
  obtains sim0 g0 where "DatingSimulation_init num_agents (seeded t) = Inr (sim0, g0)"
    and "steps n sim0 g0 = r"
proof -
  from DatingSimulation_init_props [of num_agents "seeded t"]
  obtain sim0 g0 where i: "DatingSimulation_init num_agents (seeded t) = Inr (sim0, g0)" by blast
  with assms have "steps n sim0 g0 = r" by (simp add: run_def)
  with i that show thesis by blast
qed

text \<open>
  Claim C2 fails on the code.  The breakup sweep iterates over every entry of the symmetric
  relationship dictionary, so a couple is visited once from each side, and each visit
  makes its own breakup draw.  When both draws succeed the couple is queued twice, and the
  second \<^verbatim>\<open>_break_relationship\<close> deletes a key that is already gone: KeyError.  Here a
  population of two is constructed from the seed \<open>crash_tape\<close>, and the first tick
  raises.
\<close>

theorem step_raises_KeyError:
  "\<exists>sim g. DatingSimulation_init 2 (seeded crash_tape) = Inr (sim, g)
     \<and> step sim g = Inl (KeyError ''1'')"
proof -
  from crash_run obtain sim g
    where i: "DatingSimulation_init 2 (seeded crash_tape) = Inr (sim, g)"
      and s: "steps 1 sim g = Inl (KeyError ''1'')"
    by (rule run_split)
  from s have "step sim g = Inl (KeyError ''1'')"
    by (auto simp: steps_unfold split: sum.splits)
  with i show ?thesis by blast
qed

text \<open>
  Claim C1 fails on the code.  A population of two is constructed from the seed
  \<open>couple_tape\<close>; both agents start with satisfaction 1 and compatibility 0.8.  In the
  first tick they become the only couple, and the sweep of that tick draws the lowest
  fluctuation \<open>-0.1\<close> each time.  One update per side would leave both at 0.93 and use
  three draws (position 44); the code leaves both at 0.86 and uses six (position 47):
  each side was updated twice and the breakup draw was made twice.
\<close>

theorem sweep_updates_each_side_twice:
  "\<exists>sim0 g0 sim g.
     DatingSimulation_init 2 (seeded couple_tape) = Inr (sim0, g0)
     \<and> map relationship_satisfaction (agents sim0) = [1, 1] \<and> pos g0 = 37
     \<and> step sim0 g0 = Inr (sim, g)
     \<and> relationships (environment sim) = [(''0'', ''1''), (''1'', ''0'')]
     \<and> map relationship_satisfaction (agents sim) = [0.86, 0.86]
     \<and> pos g = 47"
proof -
  from couple_run obtain sim g where r: "run 2 couple_tape 1 = Inr (sim, g)"
    and c: "relationships (environment sim) = [(''0'', ''1''), (''1'', ''0'')]"
      "map relationship_satisfaction (agents sim) = [0.86, 0.86]" "pos g = 47"
    by (elim exE conjE) (rule that, assumption+)
  from r obtain sim0 g0
    where i: "DatingSimulation_init 2 (seeded couple_tape) = Inr (sim0, g0)"
      and s: "steps 1 sim0 g0 = Inr (sim, g)"
    by (rule run_split)
  from s have st: "step sim0 g0 = Inr (sim, g)"
    by (auto simp: steps_unfold split: sum.splits)
  from couple_init i have "map relationship_satisfaction (agents sim0) = [1, 1]" "pos g0 = 37"
    by auto
  with i st c show ?thesis by - (rule exI conjI | assumption)+
qed


section \<open>Claims about construction\<close>

text \<open>
  Claim C8, as the code has it.  The constructor does not validate the population size:
  for a non-positive \<open>num_agents\<close> the range of agent indices is empty, and the
  constructor returns a simulation with no agents, an empty relationship mapping and all
  counters zero.  It raises nothing.
\<close>

theorem nonpositive_population_constructs:
  assumes "num_agents \<le> 0"
  shows "DatingSimulation_init num_agents g =
           Inr (\<lparr>names = shuffled_names g, agents = [],
                  environment = \<lparr>current_time = 0, relationships = [],
                                 messages = [], dates = []\<rparr>,
                  stats = \<lparr>messages_sent = 0, dates_arranged = 0,
                           relationships_formed = 0\<rparr>\<rparr>,
                g\<lparr>pos := pos g + 23\<rparr>)"
  using assms by (simp add: DatingSimulation_init_def shuffle_name_pool)

theorem nonpositive_population_constructs_witness:
  "(- 3 :: int) \<le> 0
   \<and> DatingSimulation_init (- 3) (seeded couple_tape) =
       Inr (\<lparr>names = shuffled_names (seeded couple_tape), agents = [],
              environment = \<lparr>current_time = 0, relationships = [],
                             messages = [], dates = []\<rparr>,
              stats = \<lparr>messages_sent = 0, dates_arranged = 0,
                       relationships_formed = 0\<rparr>\<rparr>,
            \<lparr>tape = couple_tape, pos = 23\<rparr>)"
proof -
  have h: "(- 3 :: int) \<le> 0" by simp
  from nonpositive_population_constructs [OF h, of "seeded couple_tape"] h
  show ?thesis by (simp add: seeded_def)
qed

text \<open>
  Claim C8 as stated fails: constructing a driver for a population of zero returns a
  simulation, it does not report a precondition violation.
\<close>

theorem zero_population_is_not_rejected:
  "DatingSimulation_init 0 (seeded crash_tape) =
     Inr (\<lparr>names = shuffled_names (seeded crash_tape), agents = [],
            environment = \<lparr>current_time = 0, relationships = [],
                           messages = [], dates = []\<rparr>,
            stats = \<lparr>messages_sent = 0, dates_arranged = 0,
                     relationships_formed = 0\<rparr>\<rparr>,
          \<lparr>tape = crash_tape, pos = 23\<rparr>)"
  by (simp add: DatingSimulation_init_def shuffle_name_pool seeded_def)

text \<open>
  Claim C10.  A newly constructed agent is single, has satisfaction 1 and emotional state
  0.5, every trait score in \<open>[0, 1]\<close>, and between 2 and 5 distinct interests; and the
  simulation a constructor call returns satisfies the invariants before any tick: all
  agents are as above, the relationship mapping is empty, and both \<open>wf_sim\<close> (unique ids,
  symmetric mapping of even size, status matching the mapping) and \<open>bounded_sim\<close> hold.
\<close>

theorem new_agent_state:
  "(\<exists>a g'. DatingAgent_init aid nm g = Inr (a, g')
      \<and> relationship_status a = ''single''
      \<and> relationship_satisfaction a = 1
      \<and> emotional_state a = 0.5
      \<and> (\<forall>t. 0 \<le> personality a t \<and> personality a t \<le> 1)
      \<and> distinct (interests a)
      \<and> 2 \<le> length (interests a) \<and> length (interests a) \<le> 5)
   \<and> (DatingSimulation_init num_agents g = Inr (sim, g'') \<longrightarrow>
        (\<forall>a \<in> set (agents sim).
            relationship_status a = ''single'' \<and> relationship_satisfaction a = 1
            \<and> emotional_state a = 0.5
            \<and> (\<forall>t. 0 \<le> personality a t \<and> personality a t \<le> 1)
            \<and> distinct (interests a)
            \<and> 2 \<le> length (interests a) \<and> length (interests a) \<le> 5)
        \<and> relationships (environment sim) = []
        \<and> wf_sim sim \<and> bounded_sim sim)"
proof (intro conjI impI)
  from DatingAgent_init_props [of aid nm g]
  show "\<exists>a g'. DatingAgent_init aid nm g = Inr (a, g')
      \<and> relationship_status a = ''single''
      \<and> relationship_satisfaction a = 1
      \<and> emotional_state a = 0.5
      \<and> (\<forall>t. 0 \<le> personality a t \<and> personality a t \<le> 1)
      \<and> distinct (interests a)
      \<and> 2 \<le> length (interests a) \<and> length (interests a) \<le> 5"
    by blast
next
  assume i: "DatingSimulation_init num_agents g = Inr (sim, g'')"
  from DatingSimulation_init_props [of num_agents g] i
  show "\<forall>a \<in> set (agents sim).
            relationship_status a = ''single'' \<and> relationship_satisfaction a = 1
            \<and> emotional_state a = 0.5
            \<and> (\<forall>t. 0 \<le> personality a t \<and> personality a t \<le> 1)
            \<and> distinct (interests a)
            \<and> 2 \<le> length (interests a) \<and> length (interests a) \<le> 5"
    and "relationships (environment sim) = []"
    by auto
  from DatingSimulation_init_wf [OF i] show "wf_sim sim" and "bounded_sim sim" .
qed

theorem new_agent_state_witness:
  "\<exists>sim g. DatingSimulation_init 2 (seeded couple_tape) = Inr (sim, g)
     \<and> map interests (agents sim) = [[SPORTS, READING, GAMING], [SPORTS, READING, GAMING]]
     \<and> map relationship_status (agents sim) = [''single'', ''single'']
     \<and> relationships (environment sim) = []
     \<and> wf_sim sim \<and> bounded_sim sim"
proof -
  from couple_init obtain sim g
    where i: "DatingSimulation_init 2 (seeded couple_tape) = Inr (sim, g)"
      and c: "map interests (agents sim) = [[SPORTS, READING, GAMING], [SPORTS, READING, GAMING]]"
        "map relationship_status (agents sim) = [''single'', ''single'']"
    by (elim exE conjE) (rule that, assumption+)
  from new_agent_state [of "''0''" "''Alex''" "seeded couple_tape" 2 sim g] i
  have "relationships (environment sim) = []" "wf_sim sim" "bounded_sim sim" by simp_all
  with i c show ?thesis by - (rule exI conjI | assumption)+
qed

section \<open>Claims about reachable states\<close>

text \<open>
  Claim C3.  In every state reached from a constructed simulation by any number of
  completed ticks, the relationship mapping is a dictionary (unique keys) that is
  symmetric and has an even number of entries, and an agent's status is
  \<open>in_relationship\<close> exactly when its id is a key of the mapping.
\<close>

theorem relationship_mapping_invariants:
  assumes init: "DatingSimulation_init num_agents g = Inr (sim0, g0)"
    and ticks: "steps n sim0 g0 = Inr (sim, g')"
  shows "distinct (map fst (relationships (environment sim)))
     \<and> (\<forall>a b. map_of (relationships (environment sim)) a = Some b
               \<longrightarrow> map_of (relationships (environment sim)) b = Some a)
     \<and> even (card (dom (map_of (relationships (environment sim)))))
     \<and> (\<forall>ag \<in> set (agents sim).
           relationship_status ag = ''in_relationship''
           \<longleftrightarrow> agent_id ag \<in> dom (map_of (relationships (environment sim))))"
proof -
  let ?rel = "relationships (environment sim)"
  have wf: "wf_sim sim"
    by (rule steps_wf [OF DatingSimulation_init_wf(1) [OF init] ticks])
  then have d_keys: "distinct (map fst ?rel)"
    and sym: "\<forall>(a, b) \<in> set ?rel. (b, a) \<in> set ?rel \<and> a \<noteq> b"
    and ev: "even (length ?rel)"
    and st: "\<forall>j < length (map agent_id (agents sim)).
               map relationship_status (agents sim) ! j = ''in_relationship''
               \<longleftrightarrow> map agent_id (agents sim) ! j \<in> fst ` set ?rel"
    by (simp_all add: wf_sim_def Let_def)
  have m: "map_of ?rel a = Some b \<longleftrightarrow> (a, b) \<in> set ?rel" for a b
    using d_keys by simp
  have dm: "dom (map_of ?rel) = fst ` set ?rel"
    by (rule dom_map_of_conv_image_fst)
  have "card (fst ` set ?rel) = length ?rel"
    using distinct_card [OF d_keys] by simp
  with ev have c: "even (card (dom (map_of ?rel)))" by (simp add: dm)
  have s: "relationship_status ag = ''in_relationship'' \<longleftrightarrow> agent_id ag \<in> dom (map_of ?rel)"
    if "ag \<in> set (agents sim)" for ag
  proof -
    from that obtain j where j: "j < length (agents sim)" and ag: "agents sim ! j = ag"
      by (auto simp: in_set_conv_nth)
    from st j have "relationship_status (agents sim ! j) = ''in_relationship''
        \<longleftrightarrow> agent_id (agents sim ! j) \<in> fst ` set ?rel" by simp
    then show ?thesis by (simp only: ag dm)
  qed
  from d_keys sym c s show ?thesis by (auto simp: m)
qed

theorem relationship_mapping_invariants_witness:
  "\<exists>sim0 g0 sim g'.
     DatingSimulation_init 2 (seeded couple_tape) = Inr (sim0, g0)
     \<and> steps 1 sim0 g0 = Inr (sim, g')
     \<and> relationships (environment sim) = [(''0'', ''1''), (''1'', ''0'')]
     \<and> map relationship_status (agents sim) = [''in_relationship'', ''in_relationship'']
     \<and> even (card (dom (map_of (relationships (environment sim)))))
     \<and> (\<forall>ag \<in> set (agents sim).
           relationship_status ag = ''in_relationship''
           \<longleftrightarrow> agent_id ag \<in> dom (map_of (relationships (environment sim))))"
proof -
  from couple_run obtain sim g' where r: "run 2 couple_tape 1 = Inr (sim, g')"
    and c: "relationships (environment sim) = [(''0'', ''1''), (''1'', ''0'')]"
      "map relationship_status (agents sim) = [''in_relationship'', ''in_relationship'']"
    by (elim exE conjE) (rule that, assumption+)
  from r obtain sim0 g0
    where i: "DatingSimulation_init 2 (seeded couple_tape) = Inr (sim0, g0)"
      and s: "steps 1 sim0 g0 = Inr (sim, g')"
    by (rule run_split)
  from relationship_mapping_invariants [OF i s]
  have "even (card (dom (map_of (relationships (environment sim)))))"
    and "\<forall>ag \<in> set (agents sim).
           relationship_status ag = ''in_relationship''
           \<longleftrightarrow> agent_id ag \<in> dom (map_of (relationships (environment sim)))"
    by blast+
  with i s c show ?thesis by - (rule exI conjI | assumption)+
qed

text \<open>
  Claim C4.  \<^verbatim>\<open>update_satisfaction\<close> draws \<open>u\<close> from \<^verbatim>\<open>uniform(-0.1, 0.1)\<close>, which
  lies in \<open>[-0.1, 0.1]\<close>, stores \<open>clamp(old + u + (compatibility - 0.5) * 0.1, 0, 1)\<close> as
  the agent's satisfaction and returns that value; and in every state reached from a
  constructed simulation by any number of completed ticks, every satisfaction and every
  trait score lies in \<open>[0, 1]\<close>.
\<close>

theorem update_satisfaction_clamps:
  "(let u = fst (uniform (- 0.1) 0.1 g);
        new = max 0 (min 1 (relationship_satisfaction self + u
                            + (calculate_compatibility self partner - 0.5) * 0.1))
    in - 0.1 \<le> u \<and> u \<le> 0.1
       \<and> update_satisfaction self partner g =
           (new, self\<lparr>relationship_satisfaction := new\<rparr>, snd (uniform (- 0.1) 0.1 g)))
   \<and> (DatingSimulation_init num_agents g0 = Inr (sim0, g1) \<longrightarrow>
      steps n sim0 g1 = Inr (sim, g') \<longrightarrow>
        (\<forall>a \<in> set (agents sim).
            0 \<le> relationship_satisfaction a \<and> relationship_satisfaction a \<le> 1
            \<and> (\<forall>t. 0 \<le> personality a t \<and> personality a t \<le> 1)))"
proof (intro conjI impI)
  have "- 0.1 \<le> fst (uniform (- 0.1) 0.1 g) \<and> fst (uniform (- 0.1) 0.1 g) \<le> 0.1"
    by (rule uniform_range) simp
  then show "let u = fst (uniform (- 0.1) 0.1 g);
        new = max 0 (min 1 (relationship_satisfaction self + u
                            + (calculate_compatibility self partner - 0.5) * 0.1))
    in - 0.1 \<le> u \<and> u \<le> 0.1
       \<and> update_satisfaction self partner g =
           (new, self\<lparr>relationship_satisfaction := new\<rparr>, snd (uniform (- 0.1) 0.1 g))"
    by (simp add: update_satisfaction_def Let_def split: prod.splits)
next
  assume i: "DatingSimulation_init num_agents g0 = Inr (sim0, g1)"
    and s: "steps n sim0 g1 = Inr (sim, g')"
  have "bounded_sim sim"
    by (rule steps_bounded [OF DatingSimulation_init_wf(2) [OF i] s])
  then show "\<forall>a \<in> set (agents sim).
            0 \<le> relationship_satisfaction a \<and> relationship_satisfaction a \<le> 1
            \<and> (\<forall>t. 0 \<le> personality a t \<and> personality a t \<le> 1)"
    by (simp add: bounded_sim_def)
qed

theorem update_satisfaction_clamps_witness:
  "\<exists>sim0 g1 sim g'.
     DatingSimulation_init 2 (seeded couple_tape) = Inr (sim0, g1)
     \<and> steps 1 sim0 g1 = Inr (sim, g')
     \<and> map relationship_satisfaction (agents sim) = [0.86, 0.86]
     \<and> (\<forall>a \<in> set (agents sim).
            0 \<le> relationship_satisfaction a \<and> relationship_satisfaction a \<le> 1
            \<and> (\<forall>t. 0 \<le> personality a t \<and> personality a t \<le> 1))
     \<and> fst (update_satisfaction (demo_agent ''0'' (1/4) [SPORTS, MUSIC, ART])
               (demo_agent ''1'' (3/4) [ART, SPORTS, TECH, FOOD]) (seeded couple_tape))
         = 179 / 200"
proof -
  from couple_run obtain sim g' where r: "run 2 couple_tape 1 = Inr (sim, g')"
    and c: "map relationship_satisfaction (agents sim) = [0.86, 0.86]"
    by (elim exE conjE) (rule that, assumption+)
  from r obtain sim0 g1
    where i: "DatingSimulation_init 2 (seeded couple_tape) = Inr (sim0, g1)"
      and s: "steps 1 sim0 g1 = Inr (sim, g')"
    by (rule run_split)
  let ?a = "demo_agent ''0'' (1/4) [SPORTS, MUSIC, ART]"
  let ?b = "demo_agent ''1'' (3/4) [ART, SPORTS, TECH, FOOD]"
  note t = update_satisfaction_clamps [of "seeded couple_tape" ?a ?b 2 "seeded couple_tape" sim0 g1 1 sim g']
  from t i s have b: "\<forall>a \<in> set (agents sim).
            0 \<le> relationship_satisfaction a \<and> relationship_satisfaction a \<le> 1
            \<and> (\<forall>t. 0 \<le> personality a t \<and> personality a t \<le> 1)"
    by blast
  have u: "fst (uniform (- 0.1) 0.1 (seeded couple_tape)) = - 0.1"
    by (simp add: uniform_def random_def next_raw_def seeded_def couple_tape_def)
  have cc: "calculate_compatibility ?a ?b = 9 / 20"
    by (simp add: calculate_compatibility_unfold demo_agent_def card_inter_code)
  from t have "fst (update_satisfaction ?a ?b (seeded couple_tape))
      = max 0 (min 1 (relationship_satisfaction ?a + fst (uniform (- 0.1) 0.1 (seeded couple_tape))
                            + (calculate_compatibility ?a ?b - 0.5) * 0.1))"
    by (simp add: Let_def)
  also have "\<dots> = 179 / 200"
    unfolding u cc by (simp add: demo_agent_def)
  finally have v: "fst (update_satisfaction ?a ?b (seeded couple_tape)) = 179 / 200" .
  from i s c b v show ?thesis by - (rule exI conjI | assumption)+
qed


section \<open>Claims about relationship formation\<close>





end
